theory Spec2Isabelle
  imports Complex_Main "HOL-Library.Log_Nat"
begin

section \<open>Numbers\<close>

text \<open>
  A TypeScript \<open>number\<close> is a double. Where it carries a time in seconds that the code
  only compares, stores and hands on (the bounds of a loop, the playback position, the
  start of a segment) it is modelled by \<open>real\<close>: \<open>Math.min\<close>, \<open>Math.max\<close> and the
  comparisons are exact on doubles. \<open>Infinity\<close> appears there only where the code writes
  it (the end of the last segment is an \<open>option\<close>).

  Where the code computes with numbers (the timestamp functions) the model rounds as
  the code does. The numbers met there are \<open>NaN\<close>, the two infinities and the doubles
  that hold an integer; the sign of zero is not modelled (\<open>-0\<close> and \<open>0\<close> are equal
  under \<open>===\<close> and print alike).
\<close>

datatype number = NaN | PlusInfinity | MinusInfinity | Finite int

definition MAX_SAFE_INTEGER :: int where
  "MAX_SAFE_INTEGER = 2 ^ 53 - 1"

text \<open>Rounding a rational to the nearest integer, a tie to the even one.\<close>

definition round_even :: "rat \<Rightarrow> int" where
  "round_even y =
     (let f = \<lfloor>y\<rfloor>; d = y - of_int f
      in if d < 1 / 2 then f else if 1 / 2 < d then f + 1 else if even f then f else f + 1)"

text \<open>The same for the quotient of an integer by a positive integer, in integers.\<close>

definition round_ratio :: "int \<Rightarrow> int \<Rightarrow> int" where
  "round_ratio N D =
     (let f = N div D; r = N mod D
      in if 2 * r < D then f else if D < 2 * r then f + 1 else if even f then f else f + 1)"

text \<open>
  The binary exponent of the quotient of two positive integers: the \<open>e\<close> with
  \<open>2\<^sup>e \<le> a / b < 2\<^sup>e\<^sup>+\<^sup>1\<close>.
\<close>

definition ilog2 :: "int \<Rightarrow> int \<Rightarrow> int" where
  "ilog2 a b =
     (let d = bitlen a - bitlen b
      in if 2 powi d \<le> (of_int a / of_int b :: rat) then d else d - 1)"

text \<open>
  The operator \<open>/\<close> on an integer \<open>a\<close> and a positive integer \<open>b\<close>: the double nearest
  to the quotient, a tie to the even significand. A double has a significand of 53 bits,
  so the quotient is rounded to a multiple of \<open>2\<^sup>e\<^sup>-\<^sup>5\<^sup>2\<close> (of \<open>2\<^sup>-\<^sup>1\<^sup>0\<^sup>7\<^sup>4\<close> below the normal
  range). The result is the value of that double, before any overflow.
\<close>

definition fdiv :: "int \<Rightarrow> int \<Rightarrow> rat" where
  "fdiv a b =
     (if a = 0 then 0
      else (let q = of_int \<bar>a\<bar> / of_int b;
                sh = max (ilog2 \<bar>a\<bar> b - 52) (- 1074);
                m = round_even (q / 2 powi sh)
            in of_int (sgn a) * (of_int m * 2 powi sh)))"

text \<open>
  The Number value of a mathematical integer: the nearest double, an infinity from
  \<open>2\<^sup>1\<^sup>0\<^sup>2\<^sup>4\<close> on.
\<close>

definition numberValue :: "int \<Rightarrow> number" where
  "numberValue n =
     (let r = fdiv n 1
      in if 2 ^ 1024 \<le> r then PlusInfinity
         else if r \<le> - (2 ^ 1024) then MinusInfinity
         else Finite \<lfloor>r\<rfloor>)"

text \<open>Unary minus, \<open>*\<close> and \<open>+\<close> on these numbers.\<close>

fun js_neg :: "number \<Rightarrow> number" where
  "js_neg NaN = NaN"
| "js_neg PlusInfinity = MinusInfinity"
| "js_neg MinusInfinity = PlusInfinity"
| "js_neg (Finite n) = Finite (- n)"

fun js_mul :: "number \<Rightarrow> number \<Rightarrow> number" where
  "js_mul (Finite a) (Finite b) = numberValue (a * b)"
| "js_mul NaN _ = NaN"
| "js_mul _ NaN = NaN"
| "js_mul (Finite a) PlusInfinity =
     (if a = 0 then NaN else if 0 < a then PlusInfinity else MinusInfinity)"
| "js_mul (Finite a) MinusInfinity =
     (if a = 0 then NaN else if 0 < a then MinusInfinity else PlusInfinity)"
| "js_mul PlusInfinity (Finite b) =
     (if b = 0 then NaN else if 0 < b then PlusInfinity else MinusInfinity)"
| "js_mul MinusInfinity (Finite b) =
     (if b = 0 then NaN else if 0 < b then MinusInfinity else PlusInfinity)"
| "js_mul PlusInfinity PlusInfinity = PlusInfinity"
| "js_mul MinusInfinity MinusInfinity = PlusInfinity"
| "js_mul PlusInfinity MinusInfinity = MinusInfinity"
| "js_mul MinusInfinity PlusInfinity = MinusInfinity"

fun js_add :: "number \<Rightarrow> number \<Rightarrow> number" where
  "js_add (Finite a) (Finite b) = numberValue (a + b)"
| "js_add NaN _ = NaN"
| "js_add _ NaN = NaN"
| "js_add PlusInfinity MinusInfinity = NaN"
| "js_add MinusInfinity PlusInfinity = NaN"
| "js_add PlusInfinity _ = PlusInfinity"
| "js_add _ PlusInfinity = PlusInfinity"
| "js_add MinusInfinity _ = MinusInfinity"
| "js_add _ MinusInfinity = MinusInfinity"

section \<open>The player module: host, seek primitive and LoopController\<close>

subsection \<open>Data\<close>

text \<open>The interface \<open>LoopState\<close> of the types module: the snapshot handed to listeners.\<close>

record LoopState =
  ls_isActive :: bool
  ls_startTime :: "real option"
  ls_endTime :: "real option"

text \<open>Messages written to the console, one constructor per message of the source.\<close>

datatype message =
    VideoPlayerNotFound
  | CannotSetEndWithoutStart
  | LoopActivated real real
  | LoopCleared
  | InvalidTimestamp string

text \<open>
  What a call does to the outside, in the order it does it: a call of \<open>seekTo\<close> with its
  argument, a call of the registered state-change callback (named by a number) with the
  snapshot it receives, and the console output.
\<close>

datatype effect =
    SeekTo real
  | Callback nat LoopState
  | ConsoleWarn message
  | ConsoleError message
  | ConsoleLog message

text \<open>
  The host page as the module sees it. \<open>video\<close> is the \<open>currentTime\<close> of the element
  that \<open>getVideoPlayer\<close> finds, \<open>None\<close> when it finds none. \<open>timers\<close> are the interval
  timers registered through \<open>window.setInterval\<close> and not yet cleared, \<open>nextTimer\<close> the
  identifier the next registration returns. \<open>trace\<close> records the effects so far.
\<close>

record host =
  video :: "real option"
  timers :: "nat list"
  nextTimer :: nat
  trace :: "effect list"

text \<open>The private fields of class \<open>LoopController\<close>.\<close>

record LoopController =
  startTime :: "real option"
  endTime :: "real option"
  isActive :: bool
  intervalId :: "nat option"
  onStateChange :: "nat option"

subsection \<open>Host primitives\<close>

definition emit :: "effect \<Rightarrow> host \<Rightarrow> host" where
  "emit e h = h\<lparr>trace := trace h @ [e]\<rparr>"

definition seekTo :: "real \<Rightarrow> host \<Rightarrow> bool \<times> host" where
  "seekTo seconds h =
     (case video h of
        None \<Rightarrow> (False, emit (ConsoleError VideoPlayerNotFound) (emit (SeekTo seconds) h))
      | Some _ \<Rightarrow> (True, (emit (SeekTo seconds) h)\<lparr>video := Some seconds\<rparr>))"

definition getCurrentTime :: "host \<Rightarrow> real" where
  "getCurrentTime h = (case video h of None \<Rightarrow> 0 | Some t \<Rightarrow> t)"

definition setInterval :: "host \<Rightarrow> nat \<times> host" where
  "setInterval h =
     (nextTimer h, h\<lparr>timers := timers h @ [nextTimer h], nextTimer := Suc (nextTimer h)\<rparr>)"

definition clearInterval :: "nat \<Rightarrow> host \<Rightarrow> host" where
  "clearInterval i h = h\<lparr>timers := removeAll i (timers h)\<rparr>"

subsection \<open>LoopController\<close>

definition new_LoopController :: "nat option \<Rightarrow> LoopController" where
  "new_LoopController cb =
     \<lparr>startTime = None, endTime = None, isActive = False, intervalId = None,
      onStateChange = cb\<rparr>"

definition getState :: "LoopController \<Rightarrow> LoopState" where
  "getState c =
     \<lparr>ls_isActive = isActive c, ls_startTime = startTime c, ls_endTime = endTime c\<rparr>"

definition isSettingStart :: "LoopController \<Rightarrow> bool" where
  "isSettingStart c = (startTime c \<noteq> None \<and> endTime c = None \<and> \<not> isActive c)"

definition notifyStateChange :: "LoopController \<Rightarrow> host \<Rightarrow> host" where
  "notifyStateChange c h =
     (case onStateChange c of
        None \<Rightarrow> h
      | Some cb \<Rightarrow> emit (Callback cb (getState c)) h)"

definition startMonitoring :: "LoopController \<Rightarrow> host \<Rightarrow> LoopController \<times> host" where
  "startMonitoring c h =
     (case intervalId c of
        Some _ \<Rightarrow> (c, h)
      | None \<Rightarrow> (case setInterval h of (i, h') \<Rightarrow> (c\<lparr>intervalId := Some i\<rparr>, h')))"

definition stopMonitoring :: "LoopController \<Rightarrow> host \<Rightarrow> LoopController \<times> host" where
  "stopMonitoring c h =
     (case intervalId c of
        Some i \<Rightarrow> (c\<lparr>intervalId := None\<rparr>, clearInterval i h)
      | None \<Rightarrow> (c, h))"

text \<open>The arrow function that \<open>startMonitoring\<close> hands to \<open>setInterval\<close>: one poll.\<close>

definition pollCallback :: "LoopController \<Rightarrow> host \<Rightarrow> host" where
  "pollCallback c h =
     (case (isActive c, startTime c, endTime c) of
        (True, Some st, Some en) \<Rightarrow>
          (let currentTime = getCurrentTime h
           in if currentTime \<ge> en then snd (seekTo st h) else h)
      | _ \<Rightarrow> h)"

definition activate :: "LoopController \<Rightarrow> host \<Rightarrow> LoopController \<times> host" where
  "activate c h =
     (case (startTime c, endTime c) of
        (Some st, Some en) \<Rightarrow>
          (case startMonitoring (c\<lparr>isActive := True\<rparr>) h of
             (c', h1) \<Rightarrow>
               (c', emit (ConsoleLog (LoopActivated st en))
                      (notifyStateChange c' (snd (seekTo st h1)))))
      | _ \<Rightarrow> (c, h))"

definition setStart :: "real \<Rightarrow> LoopController \<Rightarrow> host \<Rightarrow> LoopController \<times> host" where
  "setStart time c h =
     (let c' = c\<lparr>startTime := Some time\<rparr> in (c', notifyStateChange c' h))"

definition setEnd :: "real \<Rightarrow> LoopController \<Rightarrow> host \<Rightarrow> LoopController \<times> host" where
  "setEnd time c h =
     (case startTime c of
        None \<Rightarrow> (c, emit (ConsoleWarn CannotSetEndWithoutStart) h)
      | Some st \<Rightarrow>
          (let start = min st time; end = max st time
           in activate (c\<lparr>startTime := Some start, endTime := Some end\<rparr>) h))"

definition setLoop :: "real \<Rightarrow> real \<Rightarrow> LoopController \<Rightarrow> host \<Rightarrow> LoopController \<times> host" where
  "setLoop start end c h =
     activate (c\<lparr>startTime := Some (min start end), endTime := Some (max start end)\<rparr>) h"

definition clear :: "LoopController \<Rightarrow> host \<Rightarrow> LoopController \<times> host" where
  "clear c h =
     (case stopMonitoring c h of
        (c1, h1) \<Rightarrow>
          (let c' = c1\<lparr>startTime := None, endTime := None, isActive := False\<rparr>
           in (c', emit (ConsoleLog LoopCleared) (notifyStateChange c' h1))))"

definition destroy :: "LoopController \<Rightarrow> host \<Rightarrow> LoopController \<times> host" where
  "destroy c h =
     (case stopMonitoring c h of (c1, h1) \<Rightarrow> (c1\<lparr>onStateChange := None\<rparr>, h1))"

subsection \<open>Runs of the controller on its host\<close>

text \<open>
  What can happen to a controller and its host: a call of one of the public methods, the
  runtime firing the interval timer with a given identifier (which runs \<open>pollCallback\<close>
  when that timer is registered, and nothing otherwise), and the media element changing
  under the controller (playback advancing, a seek by the user, the element going away).
\<close>

datatype event =
    SetStart real
  | SetEnd real
  | SetLoop real real
  | Clear
  | Destroy
  | Fire nat
  | Media "real option"

fun step :: "event \<Rightarrow> LoopController \<times> host \<Rightarrow> LoopController \<times> host" where
  "step (SetStart t) (c, h) = setStart t c h"
| "step (SetEnd t) (c, h) = setEnd t c h"
| "step (SetLoop a b) (c, h) = setLoop a b c h"
| "step Clear (c, h) = clear c h"
| "step Destroy (c, h) = destroy c h"
| "step (Fire i) (c, h) = (c, if i \<in> set (timers h) then pollCallback c h else h)"
| "step (Media v) (c, h) = (c, h\<lparr>video := v\<rparr>)"

fun run :: "event list \<Rightarrow> LoopController \<times> host \<Rightarrow> LoopController \<times> host" where
  "run [] s = s"
| "run (e # es) s = run es (step e s)"

text \<open>A page with a media element at position \<open>v\<close>, no timer and no effect yet.\<close>

definition page :: "real option \<Rightarrow> host" where
  "page v = \<lparr>video = v, timers = [], nextTimer = 1, trace = []\<rparr>"

text \<open>The seeks and the callback invocations among the effects, in order.\<close>

fun seeks :: "effect list \<Rightarrow> real list" where
  "seeks [] = []"
| "seeks (SeekTo t # es) = t # seeks es"
| "seeks (_ # es) = seeks es"

fun notifications :: "effect list \<Rightarrow> (nat \<times> LoopState) list" where
  "notifications [] = []"
| "notifications (Callback cb s # es) = (cb, s) # notifications es"
| "notifications (_ # es) = notifications es"

text \<open>
  The three states of the specification, read off the fields: \<open>Idle\<close> has no bound,
  \<open>SettingStart\<close> is the source's \<open>isSettingStart\<close>, \<open>Active\<close> is the condition under
  which a poll does not return at once.
\<close>

definition isIdle :: "LoopController \<Rightarrow> bool" where
  "isIdle c = (startTime c = None \<and> endTime c = None \<and> \<not> isActive c)"

definition isLooping :: "LoopController \<Rightarrow> bool" where
  "isLooping c = (isActive c \<and> startTime c \<noteq> None \<and> endTime c \<noteq> None)"

text \<open>
  The controller is polling when the interval timer it holds is registered with the
  host; \<open>own_timers\<close> are the timers it holds. An event is non-activating when it is
  not a call of \<open>setEnd\<close> or \<open>setLoop\<close>, the two callers of \<open>activate\<close>.
\<close>

definition polling :: "LoopController \<Rightarrow> host \<Rightarrow> bool" where
  "polling c h = (case intervalId c of None \<Rightarrow> False | Some i \<Rightarrow> i \<in> set (timers h))"

definition own_timers :: "LoopController \<Rightarrow> nat list" where
  "own_timers c = (case intervalId c of None \<Rightarrow> [] | Some i \<Rightarrow> [i])"

fun nonactivating :: "event \<Rightarrow> bool" where
  "nonactivating (SetEnd _) = False"
| "nonactivating (SetLoop _ _) = False"
| "nonactivating _ = True"

text \<open>How the bounds and the activity flag of a controller hang together.\<close>

definition bounds_inv :: "LoopController \<Rightarrow> bool" where
  "bounds_inv c =
     ((endTime c \<noteq> None \<longrightarrow> startTime c \<noteq> None \<and> isActive c) \<and>
      (isActive c \<longrightarrow> startTime c \<noteq> None \<and> endTime c \<noteq> None))"

section \<open>The transcript module\<close>

subsection \<open>Strings\<close>

text \<open>
  A string is a list of code units, here the code units below 256. The white space of
  \<open>String.prototype.trim\<close> and of \<open>parseInt\<close> in that range is tab, line feed,
  vertical tab, form feed, carriage return, space and no-break space.
\<close>

definition isWhiteSpace :: "char \<Rightarrow> bool" where
  "isWhiteSpace ch = ((of_char ch :: nat) \<in> {9, 10, 11, 12, 13, 32, 160})"

definition isDigit :: "char \<Rightarrow> bool" where
  "isDigit ch = (48 \<le> (of_char ch :: nat) \<and> (of_char ch :: nat) \<le> 57)"

definition digitValue :: "char \<Rightarrow> nat" where
  "digitValue ch = of_char ch - 48"

definition digitChar :: "nat \<Rightarrow> char" where
  "digitChar d = char_of (48 + d)"

definition trim :: "string \<Rightarrow> string" where
  "trim s = rev (dropWhile isWhiteSpace (rev (dropWhile isWhiteSpace s)))"

text \<open>\<open>s.split(sep)\<close> for a separator of one code unit: never the empty list.\<close>

primrec js_split :: "char \<Rightarrow> string \<Rightarrow> string list" where
  "js_split sep [] = [[]]"
| "js_split sep (x # xs) =
     (if x = sep then [] # js_split sep xs
      else (x # hd (js_split sep xs)) # tl (js_split sep xs))"

text \<open>\<open>parts.join(sep)\<close>.\<close>

fun join :: "string \<Rightarrow> string list \<Rightarrow> string" where
  "join sep [] = []"
| "join sep [x] = x"
| "join sep (x # y # ys) = x @ sep @ join sep (y # ys)"

text \<open>\<open>n.toString()\<close> for a non-negative integer below \<open>2\<^sup>5\<^sup>3\<close>: its decimal digits.\<close>

fun natToString :: "nat \<Rightarrow> string" where
  "natToString n =
     (if n < 10 then [digitChar n] else natToString (n div 10) @ [digitChar (n mod 10)])"

text \<open>
  \<open>parseInt(s, 10)\<close>: leading white space is skipped, one sign is read, then the
  longest run of decimal digits; the rest of the string is ignored. Without a digit
  there the result is \<open>NaN\<close>; otherwise it is the Number value of the integer the digits
  denote, with the sign. (ECMAScript lets an implementation replace the digits after
  the twentieth by zeros; the engines do not, and neither does the model.)
\<close>

definition digitsValue :: "string \<Rightarrow> nat" where
  "digitsValue ds = foldl (\<lambda>acc d. 10 * acc + digitValue d) 0 ds"

definition parseInt10 :: "string \<Rightarrow> number" where
  "parseInt10 s =
     (let s1 = dropWhile isWhiteSpace s;
          sign = (if s1 \<noteq> [] \<and> hd s1 = CHR ''-'' then - 1 else 1 :: int);
          s2 = (if s1 \<noteq> [] \<and> (hd s1 = CHR ''+'' \<or> hd s1 = CHR ''-'') then tl s1 else s1);
          z = takeWhile isDigit s2
      in if z = [] then NaN
         else if sign < 0 then js_neg (numberValue (int (digitsValue z)))
         else numberValue (int (digitsValue z)))"

text \<open>
  \<open>x.toString()\<close> for a double \<open>x\<close> that holds a non-negative integer. ECMAScript takes
  the least number \<open>k\<close> of digits for which some \<open>s\<close> of \<open>k\<close> digits and some \<open>n\<close> have
  \<open>s \<times> 10\<^sup>n\<^sup>-\<^sup>k\<close> round to \<open>x\<close>, among those the \<open>s\<close> and \<open>n\<close> nearest to \<open>x\<close>, and prints the
  digits of \<open>s\<close> followed by \<open>n - k\<close> zeros, or in exponent notation when \<open>n\<close> is above
  21. Below \<open>2\<^sup>5\<^sup>3\<close> every integer is a double, so nothing else rounds to \<open>x\<close> and the
  result is the decimal digits of \<open>x\<close>. Seventeen digits always suffice; \<open>s\<close> is one
  of the two neighbours of \<open>x / 10\<^sup>n\<^sup>-\<^sup>k\<close>, and \<open>n\<close> the number of digits of \<open>x\<close> or one more.
\<close>

definition candidates :: "nat \<Rightarrow> nat \<Rightarrow> (nat \<times> nat) list" where
  "candidates x k =
     [(s, n). n \<leftarrow> [length (natToString x), length (natToString x) + 1], k \<le> n,
              s \<leftarrow> [x div 10 ^ (n - k), x div 10 ^ (n - k) + 1],
              10 ^ (k - 1) \<le> s, s < 10 ^ k,
              numberValue (int (s * 10 ^ (n - k))) = Finite (int x)]"

definition distance :: "nat \<Rightarrow> nat \<Rightarrow> nat \<times> nat \<Rightarrow> nat" where
  "distance x k c = (case c of (s, n) \<Rightarrow> nat \<bar>int (s * 10 ^ (n - k)) - int x\<bar>)"

fun closest :: "nat \<Rightarrow> nat \<Rightarrow> (nat \<times> nat) list \<Rightarrow> nat \<times> nat" where
  "closest x k [] = (x, length (natToString x))"
| "closest x k [c] = c"
| "closest x k (c # d # cs) =
     (let b = closest x k (d # cs)
      in if distance x k c < distance x k b \<or>
            (distance x k c = distance x k b \<and> even (fst c))
         then c else b)"

definition shortest :: "nat \<Rightarrow> nat \<times> nat" where
  "shortest x =
     (case List.find (\<lambda>k. candidates x k \<noteq> []) [1 ..< 18] of
        None \<Rightarrow> (x, length (natToString x))
      | Some k \<Rightarrow> closest x k (candidates x k))"

definition numberToString :: "nat \<Rightarrow> string" where
  "numberToString x =
     (if x < 2 ^ 53 then natToString x
      else (case shortest x of
              (s, n) \<Rightarrow>
                (let ds = natToString s; k = length ds
                 in if n \<le> 21 then ds @ replicate (n - k) CHR ''0''
                    else (if k = 1 then ds else take 1 ds @ ''.'' @ drop 1 ds) @ ''e+'' @
                         natToString (n - 1))))"

text \<open>
  \<open>x.toString()\<close> for a double that holds an integer, and \<open>s.padStart(n, c)\<close> for one
  code unit.
\<close>

definition toString :: "int \<Rightarrow> string" where
  "toString n =
     (if n < 0 then CHR ''-'' # numberToString (nat (- n)) else numberToString (nat n))"

definition padStart :: "nat \<Rightarrow> char \<Rightarrow> string \<Rightarrow> string" where
  "padStart n c s = replicate (n - length s) c @ s"

text \<open>The remainder operator \<open>%\<close> on integers: the result has the sign of the dividend.\<close>

definition js_rem :: "int \<Rightarrow> int \<Rightarrow> int" where
  "js_rem a b = sgn a * (\<bar>a\<bar> mod \<bar>b\<bar>)"

text \<open>A non-empty string of decimal digits.\<close>

definition digits :: "string \<Rightarrow> bool" where
  "digits ds = (ds \<noteq> [] \<and> list_all isDigit ds)"

subsection \<open>Timestamps\<close>

definition parseTimestamp :: "string \<Rightarrow> number \<times> effect list" where
  "parseTimestamp timeStr =
     (let cleaned = trim timeStr;
          parts = map parseInt10 (js_split CHR '':'' cleaned)
      in if list_ex (\<lambda>p. p = NaN) parts
         then (Finite 0, [ConsoleWarn (InvalidTimestamp timeStr)])
         else if length parts = 2
         then (js_add (js_mul (parts ! 0) (Finite 60)) (parts ! 1), [])
         else if length parts = 3
         then (js_add (js_add (js_mul (parts ! 0) (Finite 3600))
                              (js_mul (parts ! 1) (Finite 60)))
                      (parts ! 2), [])
         else (Finite 0, []))"

text \<open>
  \<open>formatTimestamp\<close> on a finite number of seconds (the argument is a \<open>real\<close>; the
  code meets those that are doubles, and then the floor is a double too). \<open>Math.floor\<close>
  and \<open>%\<close> are exact; the two divisions round.
\<close>

definition formatTimestamp :: "real \<Rightarrow> string" where
  "formatTimestamp seconds =
     (let totalSeconds = \<lfloor>seconds\<rfloor>;
          hours = \<lfloor>fdiv totalSeconds 3600\<rfloor>;
          minutes = \<lfloor>fdiv (js_rem totalSeconds 3600) 60\<rfloor>;
          secs = js_rem totalSeconds 60
      in if hours > 0
         then toString hours @ '':'' @ padStart 2 CHR ''0'' (toString minutes) @ '':'' @
              padStart 2 CHR ''0'' (toString secs)
         else toString minutes @ '':'' @ padStart 2 CHR ''0'' (toString secs))"

subsection \<open>Segments\<close>

text \<open>
  The interface \<open>TranscriptSegment\<close> without its reference to the DOM element, which no
  function below reads.
\<close>

record TranscriptSegment =
  seg_index :: nat
  seg_startTime :: real
  seg_text :: string

text \<open>
  The loop of \<open>findSegmentAtTime\<close> from index \<open>i\<close> on. The end of a segment is the
  start of the next one, \<open>Infinity\<close> (here \<open>None\<close>) when there is no next one.
\<close>

function findSegmentFrom ::
  "TranscriptSegment list \<Rightarrow> real \<Rightarrow> nat \<Rightarrow> TranscriptSegment option" where
  "findSegmentFrom segments currentTime i =
     (if i < length segments then
        (let segment = segments ! i;
             segmentEnd = (if i + 1 < length segments
                           then Some (seg_startTime (segments ! (i + 1))) else None)
         in if currentTime \<ge> seg_startTime segment \<and>
               (case segmentEnd of None \<Rightarrow> True | Some e \<Rightarrow> currentTime < e)
            then Some segment
            else findSegmentFrom segments currentTime (i + 1))
      else None)"
  by pat_completeness auto
termination
  by (relation "measure (\<lambda>(segments, currentTime, i). length segments - i)") auto

definition findSegmentAtTime ::
  "TranscriptSegment list \<Rightarrow> real \<Rightarrow> TranscriptSegment option" where
  "findSegmentAtTime segments currentTime = findSegmentFrom segments currentTime 0"

definition getTextForRange :: "TranscriptSegment list \<Rightarrow> real \<Rightarrow> real \<Rightarrow> string" where
  "getTextForRange segments rangeStart rangeEnd =
     (let relevantSegments =
            filter (\<lambda>seg. seg_startTime seg \<ge> rangeStart \<and> seg_startTime seg < rangeEnd)
              segments
      in join '' '' (map seg_text relevantSegments))"

text \<open>
  Segment \<open>i\<close> covers the time \<open>t\<close> when it starts at or before \<open>t\<close> and the next
  segment, if there is one, starts after \<open>t\<close>. A segment is in the range from \<open>a\<close> to
  \<open>b\<close> when it starts at or after \<open>a\<close> and before \<open>b\<close>.
\<close>

definition covers :: "TranscriptSegment list \<Rightarrow> real \<Rightarrow> nat \<Rightarrow> bool" where
  "covers segments t i =
     (i < length segments \<and> seg_startTime (segments ! i) \<le> t \<and>
      (Suc i < length segments \<longrightarrow> t < seg_startTime (segments ! Suc i)))"

definition inRange :: "real \<Rightarrow> real \<Rightarrow> TranscriptSegment \<Rightarrow> bool" where
  "inRange a b seg = (a \<le> seg_startTime seg \<and> seg_startTime seg < b)"

section \<open>Properties of the LoopController\<close>

lemma seeks_append [simp]: "seeks (xs @ ys) = seeks xs @ seeks ys"
  by (induction xs rule: seeks.induct) simp_all

lemma notifications_append [simp]:
  "notifications (xs @ ys) = notifications xs @ notifications ys"
  by (induction xs rule: notifications.induct) simp_all

lemmas host_defs = emit_def seekTo_def getCurrentTime_def setInterval_def clearInterval_def

lemmas ctl_defs = notifyStateChange_def startMonitoring_def stopMonitoring_def activate_def
  setStart_def setEnd_def setLoop_def clear_def destroy_def Let_def

lemmas init_defs = new_LoopController_def page_def

lemma run_append: "run (es @ fs) s = run fs (run es s)"
  by (induction es arbitrary: s) simp_all

subsection \<open>setStart\<close>

text \<open>
  Claim C1, as the code has it. \<open>setStart(t)\<close> replaces \<open>startTime\<close> by \<open>t\<close> and
  touches nothing else: \<open>endTime\<close>, \<open>isActive\<close>, the interval timer and the host's
  timers stay as they were, and no seek is issued. From Idle and from SettingStart the
  result is therefore SettingStart; the end bound of an active loop is not cleared and
  its polling is not stopped.
\<close>

theorem setStart_replaces_start_only:
  "startTime (fst (setStart t c h)) = Some t \<and>
   endTime (fst (setStart t c h)) = endTime c \<and>
   isActive (fst (setStart t c h)) = isActive c \<and>
   intervalId (fst (setStart t c h)) = intervalId c \<and>
   timers (snd (setStart t c h)) = timers h \<and>
   seeks (trace (snd (setStart t c h))) = seeks (trace h) \<and>
   (isIdle c \<or> isSettingStart c \<longrightarrow> isSettingStart (fst (setStart t c h)))"
  by (simp add: setStart_def notifyStateChange_def emit_def isIdle_def isSettingStart_def
      Let_def split: option.splits)

theorem setStart_replaces_start_only_witness:
  "isIdle (new_LoopController None) \<and>
   isSettingStart (fst (setStart 5 (new_LoopController None) (page None))) \<and>
   startTime (fst (setStart 5 (new_LoopController None) (page None))) = Some 5 \<and>
   endTime (fst (setStart 5 (new_LoopController None) (page None))) = None"
  using setStart_replaces_start_only [of 5 "new_LoopController None" "page None"]
  by (simp add: isIdle_def new_LoopController_def)

text \<open>
  Claim C1 as stated fails from Active: after \<open>setLoop(1, 2)\<close> the controller loops, and
  \<open>setStart(3)\<close> leaves \<open>endTime = 2\<close>, \<open>isActive\<close> and the registered timer in place.
\<close>

theorem setStart_keeps_end_counterexample:
  "isLooping (fst (run [SetLoop 1 2] (new_LoopController None, page (Some 0)))) \<and>
   endTime (fst (run [SetLoop 1 2, SetStart 3] (new_LoopController None, page (Some 0)))) =
     Some 2 \<and>
   isActive (fst (run [SetLoop 1 2, SetStart 3] (new_LoopController None, page (Some 0)))) \<and>
   \<not> isSettingStart
       (fst (run [SetLoop 1 2, SetStart 3] (new_LoopController None, page (Some 0)))) \<and>
   intervalId (fst (run [SetLoop 1 2, SetStart 3] (new_LoopController None, page (Some 0)))) =
     Some 1 \<and>
   timers (snd (run [SetLoop 1 2, SetStart 3] (new_LoopController None, page (Some 0)))) = [1]"
  by (simp add: host_defs ctl_defs init_defs isLooping_def isSettingStart_def)

subsection \<open>The bounds of reachable states\<close>

lemma bounds_inv_step: "bounds_inv (fst s) \<Longrightarrow> bounds_inv (fst (step e s))"
  by (cases e; cases s)
     (auto simp: bounds_inv_def host_defs ctl_defs split: option.splits prod.splits)

lemma bounds_inv_run: "bounds_inv (fst s) \<Longrightarrow> bounds_inv (fst (run es s))"
  by (induction es arbitrary: s) (simp_all add: bounds_inv_step)

text \<open>
  Claim C2, as the code has it. In every state reached from a new controller by any run
  of events (calls of \<open>setStart\<close>, \<open>setEnd\<close>, \<open>setLoop\<close>, \<open>clear\<close>, and also \<open>destroy\<close>,
  timer ticks and media changes): when \<open>endTime\<close> is set, so is \<open>startTime\<close> and
  \<open>isActive\<close> is true; and \<open>isActive\<close> is true only when both bounds are set. The order
  \<open>startTime < endTime\<close> holds right after a \<open>setEnd\<close> or \<open>setLoop\<close> whose two times
  differ; it is not an invariant of reachable states.
\<close>

theorem bounds_of_reachable_states:
  "(endTime (fst (run es (new_LoopController cb, h0))) \<noteq> None \<longrightarrow>
      startTime (fst (run es (new_LoopController cb, h0))) \<noteq> None \<and>
      isActive (fst (run es (new_LoopController cb, h0)))) \<and>
   (isActive (fst (run es (new_LoopController cb, h0))) \<longrightarrow>
      startTime (fst (run es (new_LoopController cb, h0))) \<noteq> None \<and>
      endTime (fst (run es (new_LoopController cb, h0))) \<noteq> None) \<and>
   (startTime c = Some s \<and> s \<noteq> t \<longrightarrow>
      startTime (fst (setEnd t c h)) = Some (min s t) \<and>
      endTime (fst (setEnd t c h)) = Some (max s t) \<and> min s t < max s t) \<and>
   (a \<noteq> b \<longrightarrow>
      startTime (fst (setLoop a b c h)) = Some (min a b) \<and>
      endTime (fst (setLoop a b c h)) = Some (max a b) \<and> min a b < max a b)"
proof -
  have "bounds_inv (fst (run es (new_LoopController cb, h0)))"
    by (rule bounds_inv_run) (simp add: bounds_inv_def new_LoopController_def)
  then show ?thesis
    by (auto simp: bounds_inv_def host_defs ctl_defs split: option.splits prod.splits)
qed

theorem bounds_of_reachable_states_witness:
  "endTime (fst (run [SetStart 5, SetEnd 2] (new_LoopController None, page None))) = Some 5 \<and>
   startTime (fst (run [SetStart 5, SetEnd 2] (new_LoopController None, page None))) \<noteq> None \<and>
   isActive (fst (run [SetStart 5, SetEnd 2] (new_LoopController None, page None))) \<and>
   startTime (fst (setStart 5 (new_LoopController None) (page None))) = Some 5 \<and>
   startTime (fst (setEnd 2 (fst (setStart 5 (new_LoopController None) (page None)))
                      (page None))) = Some 2 \<and>
   endTime (fst (setEnd 2 (fst (setStart 5 (new_LoopController None) (page None)))
                    (page None))) = Some 5 \<and>
   startTime (fst (setLoop 7 3 (new_LoopController None) (page None))) = Some 3 \<and>
   endTime (fst (setLoop 7 3 (new_LoopController None) (page None))) = Some 7"
proof -
  have e: "endTime (fst (run [SetStart 5, SetEnd 2] (new_LoopController None, page None))) =
      Some 5"
    by (simp add: host_defs ctl_defs init_defs)
  have s: "startTime (fst (setStart 5 (new_LoopController None) (page None))) = Some 5"
    by (simp add: setStart_def Let_def)
  show ?thesis
    using e s
      bounds_of_reachable_states [of "[SetStart 5, SetEnd 2]" None "page None"
        "fst (setStart 5 (new_LoopController None) (page None))" 5 2 "page None" 7 3]
      bounds_of_reachable_states [of "[]" None "page None"
        "new_LoopController None" 5 2 "page None" 7 3]
    by simp
qed

text \<open>
  Claim C2 as stated fails: after \<open>setLoop(1, 2)\<close> and \<open>setStart(3)\<close> both bounds are
  set and \<open>startTime = 3\<close> is above \<open>endTime = 2\<close>.
\<close>

theorem bounds_not_ordered_counterexample:
  "startTime (fst (run [SetLoop 1 2, SetStart 3] (new_LoopController None, page None))) =
     Some 3 \<and>
   endTime (fst (run [SetLoop 1 2, SetStart 3] (new_LoopController None, page None))) =
     Some 2 \<and>
   \<not> ((3 :: real) < 2)"
  by (simp add: host_defs ctl_defs init_defs)

subsection \<open>setEnd\<close>

text \<open>
  Claim C3. Without a start, \<open>setEnd(t)\<close> logs a warning and changes neither the
  controller nor the host otherwise. With \<open>startTime = s\<close> it stores
  \<open>startTime = min s t\<close> and \<open>endTime = max s t\<close>, sets \<open>isActive\<close>, holds an
  interval timer (registered with the host, when the timer it held before was), and
  issues exactly one seek, to \<open>min s t\<close>. \<open>setStart(5)\<close> then \<open>setEnd(2)\<close> on a new
  controller gives the state \<open>{isActive: true, startTime: 2, endTime: 5}\<close>.
\<close>

theorem setEnd_normalizes:
  "(startTime c = None \<longrightarrow>
      setEnd t c h = (c, emit (ConsoleWarn CannotSetEndWithoutStart) h)) \<and>
   (startTime c = Some s \<longrightarrow>
      startTime (fst (setEnd t c h)) = Some (min s t) \<and>
      endTime (fst (setEnd t c h)) = Some (max s t) \<and>
      isActive (fst (setEnd t c h)) \<and>
      intervalId (fst (setEnd t c h)) \<noteq> None \<and>
      (intervalId c = None \<or> polling c h \<longrightarrow>
         polling (fst (setEnd t c h)) (snd (setEnd t c h))) \<and>
      seeks (trace (snd (setEnd t c h))) = seeks (trace h) @ [min s t]) \<and>
   getState (fst (run [SetStart 5, SetEnd 2] (new_LoopController cb, h0))) =
     \<lparr>ls_isActive = True, ls_startTime = Some 2, ls_endTime = Some 5\<rparr>"
  by (auto simp: host_defs ctl_defs polling_def getState_def new_LoopController_def
      split: option.splits prod.splits)

theorem setEnd_normalizes_witness:
  "startTime (new_LoopController None) = None \<and>
   setEnd 2 (new_LoopController None) (page None) =
     (new_LoopController None, emit (ConsoleWarn CannotSetEndWithoutStart) (page None)) \<and>
   startTime (fst (setStart 5 (new_LoopController None) (page None))) = Some 5 \<and>
   intervalId (fst (setStart 5 (new_LoopController None) (page None))) = None \<and>
   startTime (fst (run [SetStart 5, SetEnd 2] (new_LoopController None, page None))) = Some 2 \<and>
   endTime (fst (run [SetStart 5, SetEnd 2] (new_LoopController None, page None))) = Some 5 \<and>
   polling (fst (run [SetStart 5, SetEnd 2] (new_LoopController None, page None)))
           (snd (run [SetStart 5, SetEnd 2] (new_LoopController None, page None))) \<and>
   seeks (trace (snd (run [SetStart 5, SetEnd 2] (new_LoopController None, page None)))) = [2]"
  using setEnd_normalizes [of "new_LoopController None" 2 "page None" 5 None "page None"]
    setEnd_normalizes [of "fst (setStart 5 (new_LoopController None) (page None))" 2
      "snd (setStart 5 (new_LoopController None) (page None))" 5 None "page None"]
  by (simp add: setStart_def notifyStateChange_def init_defs)

subsection \<open>Polling\<close>

lemma inactive_step:
  "nonactivating e \<Longrightarrow> \<not> isActive (fst s) \<Longrightarrow>
   \<not> isActive (fst (step e s)) \<and> seeks (trace (snd (step e s))) = seeks (trace (snd s))"
  by (cases e; cases s)
     (auto simp: host_defs ctl_defs pollCallback_def split: option.splits prod.splits)

lemma inactive_run_no_seek:
  "\<forall>e \<in> set es. nonactivating e \<Longrightarrow> \<not> isActive (fst s) \<Longrightarrow>
   seeks (trace (snd (run es s))) = seeks (trace (snd s))"
proof (induction es arbitrary: s)
  case Nil
  then show ?case by simp
next
  case (Cons e es)
  from Cons.prems have p: "nonactivating e" and ps: "\<forall>x \<in> set es. nonactivating x"
    by simp_all
  from inactive_step [OF p Cons.prems(2)]
  have a: "\<not> isActive (fst (step e s))"
    and b: "seeks (trace (snd (step e s))) = seeks (trace (snd s))" by simp_all
  from Cons.IH [OF ps a] b show ?case by simp
qed

text \<open>
  Claim C4. A poll of a controller that is active with bounds \<open>a\<close> and \<open>b\<close>, at a
  playback position at or past \<open>b\<close>, issues one seek, to \<open>a\<close>; any other poll leaves
  the host as it is. So with the loop \<open>[10, 20)\<close> and the position \<open>21\<close> the tick of the
  timer seeks to \<open>10\<close>. \<open>clear()\<close> resets the state to
  \<open>{isActive: false, startTime: null, endTime: null}\<close> without a seek, and whatever
  happens afterwards short of a new \<open>setEnd\<close> or \<open>setLoop\<close> (ticks of any timer, the
  position moving anywhere) issues no seek.
\<close>

theorem poll_seeks_iff_past_end:
  "(isActive c \<and> startTime c = Some a \<and> endTime c = Some b \<and> b \<le> getCurrentTime h \<longrightarrow>
      seeks (trace (pollCallback c h)) = seeks (trace h) @ [a]) \<and>
   (\<not> (isLooping c \<and> (\<exists>b. endTime c = Some b \<and> b \<le> getCurrentTime h)) \<longrightarrow>
      pollCallback c h = h) \<and>
   seeks (trace (snd (run [Media (Some 21), Fire 1]
      (run [SetLoop 10 20] (new_LoopController cb, page (Some 0)))))) =
    seeks (trace (snd (run [SetLoop 10 20] (new_LoopController cb, page (Some 0))))) @ [10] \<and>
   getState (fst (clear c h)) =
     \<lparr>ls_isActive = False, ls_startTime = None, ls_endTime = None\<rparr> \<and>
   ((\<forall>e \<in> set es. nonactivating e) \<longrightarrow>
      seeks (trace (snd (run es (clear c h)))) = seeks (trace h))"
proof -
  have 1: "isActive c \<and> startTime c = Some a \<and> endTime c = Some b \<and> b \<le> getCurrentTime h \<longrightarrow>
      seeks (trace (pollCallback c h)) = seeks (trace h) @ [a]"
    by (auto simp: pollCallback_def host_defs split: option.splits)
  have 2: "\<not> (isLooping c \<and> (\<exists>b. endTime c = Some b \<and> b \<le> getCurrentTime h)) \<longrightarrow>
      pollCallback c h = h"
    by (auto simp: pollCallback_def isLooping_def split: option.splits bool.splits)
  have 3: "seeks (trace (snd (run [Media (Some 21), Fire 1]
      (run [SetLoop 10 20] (new_LoopController cb, page (Some 0)))))) =
    seeks (trace (snd (run [SetLoop 10 20] (new_LoopController cb, page (Some 0))))) @ [10]"
    by (simp add: host_defs ctl_defs pollCallback_def init_defs split: option.splits)
  have 4: "getState (fst (clear c h)) =
      \<lparr>ls_isActive = False, ls_startTime = None, ls_endTime = None\<rparr>"
    by (simp add: host_defs ctl_defs getState_def split: option.splits prod.splits)
  have na: "\<not> isActive (fst (clear c h))"
    by (simp add: host_defs ctl_defs split: option.splits prod.splits)
  have cs: "seeks (trace (snd (clear c h))) = seeks (trace h)"
    by (simp add: host_defs ctl_defs split: option.splits prod.splits)
  have 5: "(\<forall>e \<in> set es. nonactivating e) \<longrightarrow>
      seeks (trace (snd (run es (clear c h)))) = seeks (trace h)"
    using inactive_run_no_seek [OF _ na] cs by simp
  from 1 2 3 4 5 show ?thesis by blast
qed

theorem poll_seeks_iff_past_end_witness:
  "isActive (fst (setLoop 10 20 (new_LoopController None) (page None))) \<and>
   startTime (fst (setLoop 10 20 (new_LoopController None) (page None))) = Some 10 \<and>
   endTime (fst (setLoop 10 20 (new_LoopController None) (page None))) = Some 20 \<and>
   20 \<le> getCurrentTime (page (Some 21)) \<and>
   seeks (trace (pollCallback (fst (setLoop 10 20 (new_LoopController None) (page None)))
                              (page (Some 21)))) = [10] \<and>
   \<not> isLooping (new_LoopController None) \<and>
   pollCallback (new_LoopController None) (page (Some 21)) = page (Some 21) \<and>
   nonactivating (Media (Some 30)) \<and> nonactivating (Fire 1) \<and>
   seeks (trace (snd (run [Media (Some 30), Fire 1]
     (clear (fst (setLoop 10 20 (new_LoopController None) (page None))) (page (Some 21)))))) = []"
proof -
  let ?c = "fst (setLoop 10 20 (new_LoopController None) (page None))"
  have f: "isActive ?c \<and> startTime ?c = Some 10 \<and> endTime ?c = Some 20 \<and>
      20 \<le> getCurrentTime (page (Some 21))"
    by (simp add: host_defs ctl_defs init_defs)
  have g: "\<not> isLooping (new_LoopController None)"
    by (simp add: isLooping_def new_LoopController_def)
  have t: "seeks (trace (page (Some 21))) = []"
    by (simp add: page_def)
  show ?thesis
    using f g t
      poll_seeks_iff_past_end [of ?c 10 20 "page (Some 21)" None "[Media (Some 30), Fire 1]"]
      poll_seeks_iff_past_end [of "new_LoopController None" 10 20 "page (Some 21)" None "[]"]
    by simp
qed

subsection \<open>Notification\<close>

text \<open>
  Claim C9. With a callback registered, each of \<open>setStart\<close>, \<open>setEnd\<close> (when a start is
  set), \<open>setLoop\<close> and \<open>clear\<close> invokes that callback exactly once before it returns,
  with the snapshot \<open>getState\<close> gives of the controller as the call leaves it. With no
  callback registered none of them invokes anything. A \<open>setEnd\<close> without a start
  changes nothing in the controller and invokes nothing.
\<close>

theorem notify_once_after_mutation:
  "(onStateChange c = Some k \<longrightarrow>
      notifications (trace (snd (setStart t c h))) =
        notifications (trace h) @ [(k, getState (fst (setStart t c h)))] \<and>
      (startTime c \<noteq> None \<longrightarrow>
         notifications (trace (snd (setEnd t c h))) =
           notifications (trace h) @ [(k, getState (fst (setEnd t c h)))]) \<and>
      notifications (trace (snd (setLoop a b c h))) =
        notifications (trace h) @ [(k, getState (fst (setLoop a b c h)))] \<and>
      notifications (trace (snd (clear c h))) =
        notifications (trace h) @ [(k, getState (fst (clear c h)))]) \<and>
   (onStateChange c = None \<longrightarrow>
      notifications (trace (snd (setStart t c h))) = notifications (trace h) \<and>
      notifications (trace (snd (setEnd t c h))) = notifications (trace h) \<and>
      notifications (trace (snd (setLoop a b c h))) = notifications (trace h) \<and>
      notifications (trace (snd (clear c h))) = notifications (trace h)) \<and>
   (startTime c = None \<longrightarrow>
      fst (setEnd t c h) = c \<and>
      notifications (trace (snd (setEnd t c h))) = notifications (trace h))"
  by (auto simp: host_defs ctl_defs getState_def split: option.splits prod.splits)

theorem notify_once_after_mutation_witness:
  "onStateChange (new_LoopController (Some 7)) = Some 7 \<and>
   notifications (trace (snd (setStart 5 (new_LoopController (Some 7)) (page None)))) =
     [(7, \<lparr>ls_isActive = False, ls_startTime = Some 5, ls_endTime = None\<rparr>)] \<and>
   notifications (trace (snd (setLoop 4 3 (new_LoopController (Some 7)) (page None)))) =
     [(7, \<lparr>ls_isActive = True, ls_startTime = Some 3, ls_endTime = Some 4\<rparr>)] \<and>
   notifications (trace (snd (clear (new_LoopController (Some 7)) (page None)))) =
     [(7, \<lparr>ls_isActive = False, ls_startTime = None, ls_endTime = None\<rparr>)] \<and>
   startTime (fst (setStart 5 (new_LoopController (Some 7)) (page None))) \<noteq> None \<and>
   notifications (trace (snd (setEnd 2 (fst (setStart 5 (new_LoopController (Some 7)) (page None)))
       (page None)))) =
     [(7, \<lparr>ls_isActive = True, ls_startTime = Some 2, ls_endTime = Some 5\<rparr>)] \<and>
   onStateChange (new_LoopController None) = None \<and>
   notifications (trace (snd (setLoop 4 3 (new_LoopController None) (page None)))) = [] \<and>
   startTime (new_LoopController (Some 7)) = None \<and>
   notifications (trace (snd (setEnd 2 (new_LoopController (Some 7)) (page None)))) = []"
proof -
  let ?c = "new_LoopController (Some 7)"
  let ?c5 = "fst (setStart 5 ?c (page None))"
  have a: "onStateChange ?c = Some 7 \<and> onStateChange ?c5 = Some 7 \<and>
      startTime ?c5 \<noteq> None \<and> onStateChange (new_LoopController None) = None \<and>
      startTime ?c = None \<and> notifications (trace (page None)) = []"
    by (simp add: setStart_def Let_def init_defs)
  have g: "getState (fst (setStart 5 ?c (page None))) =
        \<lparr>ls_isActive = False, ls_startTime = Some 5, ls_endTime = None\<rparr> \<and>
      getState (fst (setLoop 4 3 ?c (page None))) =
        \<lparr>ls_isActive = True, ls_startTime = Some 3, ls_endTime = Some 4\<rparr> \<and>
      getState (fst (clear ?c (page None))) =
        \<lparr>ls_isActive = False, ls_startTime = None, ls_endTime = None\<rparr> \<and>
      getState (fst (setEnd 2 ?c5 (page None))) =
        \<lparr>ls_isActive = True, ls_startTime = Some 2, ls_endTime = Some 5\<rparr>"
    by (simp add: host_defs ctl_defs getState_def init_defs)
  show ?thesis
    using a g
      notify_once_after_mutation [of ?c 7 5 "page None" 4 3]
      notify_once_after_mutation [of ?c5 7 2 "page None" 4 3]
      notify_once_after_mutation [of ?c 7 2 "page None" 4 3]
      notify_once_after_mutation [of "new_LoopController None" 7 2 "page None" 4 3]
    by simp
qed

subsection \<open>The interval timer\<close>

lemma own_timers_step:
  "timers (snd s) = own_timers (fst s) \<Longrightarrow>
   timers (snd (step e s)) = own_timers (fst (step e s))"
  by (cases e; cases s)
     (auto simp: own_timers_def host_defs ctl_defs pollCallback_def
           split: option.splits prod.splits bool.splits)

lemma own_timers_run:
  "timers (snd s) = own_timers (fst s) \<Longrightarrow>
   timers (snd (run es s)) = own_timers (fst (run es s))"
  by (induction es arbitrary: s) (simp_all add: own_timers_step)

text \<open>
  Claim C10. A controller holds at most one interval timer. In every state reached from
  a new controller on a host without timers, the host's timers are exactly the one
  timer the controller holds, if it holds one; \<open>startMonitoring\<close> on a controller that
  holds a timer changes nothing, so \<open>setEnd\<close> and \<open>setLoop\<close> on such a controller
  keep its timer and register no other; and after \<open>clear\<close> or \<open>destroy\<close> no timer
  is left.
\<close>

theorem single_polling_timer:
  "(timers h0 = [] \<longrightarrow>
      timers (snd (run es (new_LoopController cb, h0))) =
        own_timers (fst (run es (new_LoopController cb, h0))) \<and>
      length (timers (snd (run es (new_LoopController cb, h0)))) \<le> 1 \<and>
      timers (snd (run (es @ [Clear]) (new_LoopController cb, h0))) = [] \<and>
      timers (snd (run (es @ [Destroy]) (new_LoopController cb, h0))) = []) \<and>
   (intervalId c \<noteq> None \<longrightarrow>
      startMonitoring c h = (c, h) \<and>
      timers (snd (setEnd t c h)) = timers h \<and>
      intervalId (fst (setEnd t c h)) = intervalId c \<and>
      timers (snd (setLoop a b c h)) = timers h \<and>
      intervalId (fst (setLoop a b c h)) = intervalId c)"
proof -
  let ?s0 = "(new_LoopController cb, h0)"
  have inv: "timers h0 = [] \<Longrightarrow> timers (snd (run es' ?s0)) = own_timers (fst (run es' ?s0))" for es'
    by (rule own_timers_run) (simp add: own_timers_def new_LoopController_def)
  have len: "length (own_timers k) \<le> 1" for k
    by (simp add: own_timers_def split: option.splits)
  have stop: "timers (snd s) = own_timers (fst s) \<Longrightarrow>
      timers (snd (step Clear s)) = [] \<and> timers (snd (step Destroy s)) = []" for s
    by (cases s) (auto simp: own_timers_def host_defs ctl_defs split: option.splits prod.splits)
  have 1: "timers h0 = [] \<longrightarrow>
      timers (snd (run es ?s0)) = own_timers (fst (run es ?s0)) \<and>
      length (timers (snd (run es ?s0))) \<le> 1 \<and>
      timers (snd (run (es @ [Clear]) ?s0)) = [] \<and>
      timers (snd (run (es @ [Destroy]) ?s0)) = []"
    using inv [of es] len stop [of "run es ?s0"] by (simp add: run_append)
  have 2: "intervalId c \<noteq> None \<longrightarrow>
      startMonitoring c h = (c, h) \<and>
      timers (snd (setEnd t c h)) = timers h \<and>
      intervalId (fst (setEnd t c h)) = intervalId c \<and>
      timers (snd (setLoop a b c h)) = timers h \<and>
      intervalId (fst (setLoop a b c h)) = intervalId c"
    by (auto simp: host_defs ctl_defs split: option.splits prod.splits)
  from 1 2 show ?thesis by blast
qed

theorem single_polling_timer_witness:
  "timers (page None) = [] \<and>
   timers (snd (run [SetLoop 1 2, SetStart 0, SetEnd 5, SetLoop 3 4] (new_LoopController None, page None))) = [1] \<and>
   timers (snd (run ([SetLoop 1 2, SetStart 0, SetEnd 5, SetLoop 3 4] @ [Clear]) (new_LoopController None, page None))) = [] \<and>
   intervalId (fst (run [SetLoop 1 2] (new_LoopController None, page None))) = Some 1 \<and>
   startMonitoring (fst (run [SetLoop 1 2] (new_LoopController None, page None)))
                   (snd (run [SetLoop 1 2] (new_LoopController None, page None))) =
     run [SetLoop 1 2] (new_LoopController None, page None)"
proof -
  have i: "intervalId (fst (run [SetLoop 1 2] (new_LoopController None, page None))) = Some 1"
    by (simp add: host_defs ctl_defs new_LoopController_def page_def)
  have o: "own_timers (fst (run [SetLoop 1 2, SetStart 0, SetEnd 5, SetLoop 3 4]
      (new_LoopController None, page None))) = [1]"
    by (simp add: host_defs ctl_defs new_LoopController_def page_def own_timers_def)
  show ?thesis
    using i o
      single_polling_timer [of "page None" "[SetLoop 1 2, SetStart 0, SetEnd 5, SetLoop 3 4]" None
        "fst (run [SetLoop 1 2] (new_LoopController None, page None))"
        "snd (run [SetLoop 1 2] (new_LoopController None, page None))"]
    by (simp add: page_def)
qed

section \<open>Properties of the transcript module\<close>

subsection \<open>findSegmentAtTime\<close>

declare findSegmentFrom.simps [simp del]

lemma findSegmentFrom_first:
  "findSegmentFrom segs t i =
     (if \<exists>j. i \<le> j \<and> covers segs t j
      then Some (segs ! (LEAST j. i \<le> j \<and> covers segs t j)) else None)"
proof (induction segs t i rule: findSegmentFrom.induct)
  case (1 segs t i)
  show ?case
  proof (cases "i < length segs")
    case False
    then have "\<not> (\<exists>j. i \<le> j \<and> covers segs t j)" by (auto simp: covers_def)
    with False show ?thesis by (subst findSegmentFrom.simps) simp
  next
    case True
    show ?thesis
    proof (cases "covers segs t i")
      case c: True
      then have "(LEAST j. i \<le> j \<and> covers segs t j) = i"
        by (intro Least_equality) auto
      moreover have "\<exists>j. i \<le> j \<and> covers segs t j" using c by blast
      moreover have "findSegmentFrom segs t i = Some (segs ! i)"
        using c True by (subst findSegmentFrom.simps) (auto simp: covers_def Let_def)
      ultimately show ?thesis by simp
    next
      case nc: False
      then have step: "findSegmentFrom segs t i = findSegmentFrom segs t (i + 1)"
        using True by (subst findSegmentFrom.simps) (auto simp: covers_def Let_def)
      have eq: "(i \<le> j \<and> covers segs t j) = (i + 1 \<le> j \<and> covers segs t j)" for j
        using nc by (cases "j = i") auto
      have ih: "findSegmentFrom segs t (i + 1) =
         (if \<exists>j. i + 1 \<le> j \<and> covers segs t j
          then Some (segs ! (LEAST j. i + 1 \<le> j \<and> covers segs t j)) else None)"
        using "1.IH" [OF True refl refl] nc True by (auto simp: covers_def)
      show ?thesis unfolding step ih eq ..
    qed
  qed
qed

lemma covers_unique:
  assumes "sorted_wrt (<) (map seg_startTime segs)" "covers segs t i" "covers segs t j"
  shows "i = j"
proof -
  have mono: "a < b \<Longrightarrow> b < length segs \<Longrightarrow> seg_startTime (segs ! a) < seg_startTime (segs ! b)" for a b
    using assms(1) by (simp add: sorted_wrt_iff_nth_less)
  have no: "covers segs t a \<Longrightarrow> covers segs t b \<Longrightarrow> \<not> a < b" for a b
  proof
    assume a: "covers segs t a" and b: "covers segs t b" and lt: "a < b"
    then have "Suc a < length segs" by (simp add: covers_def)
    with a have 1: "t < seg_startTime (segs ! Suc a)" by (simp add: covers_def)
    have "seg_startTime (segs ! Suc a) \<le> seg_startTime (segs ! b)"
    proof (cases "Suc a = b")
      case True then show ?thesis by simp
    next
      case False
      with lt have "Suc a < b" by simp
      with mono [of "Suc a" b] b show ?thesis by (simp add: covers_def)
    qed
    with 1 b show False by (simp add: covers_def)
  qed
  from no [OF assms(2,3)] no [OF assms(3,2)] show ?thesis by simp
qed

lemma covers_exists:
  assumes "segs \<noteq> []" "seg_startTime (segs ! 0) \<le> t"
  shows "\<exists>i. covers segs t i"
proof (rule ccontr)
  assume no: "\<not> (\<exists>i. covers segs t i)"
  have all: "j < length segs \<Longrightarrow> seg_startTime (segs ! j) \<le> t" for j
  proof (induction j)
    case 0
    show ?case by (rule assms(2))
  next
    case (Suc j)
    then have "seg_startTime (segs ! j) \<le> t" by simp
    moreover have "\<not> covers segs t j" using no by blast
    ultimately show ?case using Suc.prems by (simp add: covers_def)
  qed
  from assms(1) obtain n where n: "length segs = Suc n" by (cases segs) simp_all
  then have "seg_startTime (segs ! n) \<le> t" using all [of n] by simp
  with n have "covers segs t n" by (simp add: covers_def)
  with no show False by blast
qed

text \<open>
  Claim C7. For segments with strictly ascending start times and every time \<open>t\<close>:
  \<open>findSegmentAtTime\<close> returns the segment that covers \<open>t\<close> (it starts at or before
  \<open>t\<close>, and the next one, if any, starts after \<open>t\<close>); such a segment exists as soon as
  the list is not empty and its first segment starts at or before \<open>t\<close>; the result is
  \<open>null\<close> when the list is empty or \<open>t\<close> is before the first start, so for every
  negative \<open>t\<close> when no start time is negative.
\<close>

theorem findSegmentAtTime_covering:
  assumes "sorted_wrt (<) (map seg_startTime segs)"
  shows "(covers segs t i \<longrightarrow> findSegmentAtTime segs t = Some (segs ! i)) \<and>
         (segs = [] \<or> t < seg_startTime (segs ! 0) \<longrightarrow> findSegmentAtTime segs t = None) \<and>
         (segs \<noteq> [] \<and> seg_startTime (segs ! 0) \<le> t \<longrightarrow>
            (\<exists>k. covers segs t k \<and> findSegmentAtTime segs t = Some (segs ! k))) \<and>
         ((\<forall>s \<in> set segs. 0 \<le> seg_startTime s) \<and> t < 0 \<longrightarrow> findSegmentAtTime segs t = None)"
proof -
  have found: "findSegmentAtTime segs t = Some (segs ! k)" if "covers segs t k" for k
  proof -
    from that have ex: "\<exists>j. 0 \<le> j \<and> covers segs t j" by blast
    have "covers segs t (LEAST j. 0 \<le> j \<and> covers segs t j)"
      using LeastI [of "\<lambda>j. 0 \<le> j \<and> covers segs t j" k] that by simp
    with that assms have "(LEAST j. 0 \<le> j \<and> covers segs t j) = k"
      by (blast intro: covers_unique)
    with ex show ?thesis
      unfolding findSegmentAtTime_def findSegmentFrom_first by simp
  qed
  have none: "findSegmentAtTime segs t = None" if "\<forall>j. \<not> covers segs t j"
    using that unfolding findSegmentAtTime_def findSegmentFrom_first by simp
  have before: "\<not> covers segs t j" if "segs = [] \<or> t < seg_startTime (segs ! 0)" for j
  proof
    assume c: "covers segs t j"
    then have j: "j < length segs" by (simp add: covers_def)
    then have ne: "segs \<noteq> []" by auto
    with that have lt: "t < seg_startTime (segs ! 0)" by simp
    have "seg_startTime (segs ! 0) \<le> seg_startTime (segs ! j)"
    proof (cases "j = 0")
      case True then show ?thesis by simp
    next
      case False
      with j assms show ?thesis by (simp add: sorted_wrt_iff_nth_less less_imp_le)
    qed
    with lt c show False by (simp add: covers_def)
  qed
  have neg: "\<not> covers segs t j" if "\<forall>s \<in> set segs. 0 \<le> seg_startTime s" "t < 0" for j
  proof
    assume c: "covers segs t j"
    then have "segs ! j \<in> set segs" by (simp add: covers_def)
    with that(1) have "0 \<le> seg_startTime (segs ! j)" by blast
    with c that(2) show False by (simp add: covers_def)
  qed
  have 1: "covers segs t i \<longrightarrow> findSegmentAtTime segs t = Some (segs ! i)"
    using found by blast
  have 2: "segs = [] \<or> t < seg_startTime (segs ! 0) \<longrightarrow> findSegmentAtTime segs t = None"
  proof
    assume h: "segs = [] \<or> t < seg_startTime (segs ! 0)"
    have "\<forall>j. \<not> covers segs t j" using before [OF h] by simp
    then show "findSegmentAtTime segs t = None" by (rule none)
  qed
  have 3: "segs \<noteq> [] \<and> seg_startTime (segs ! 0) \<le> t \<longrightarrow>
            (\<exists>k. covers segs t k \<and> findSegmentAtTime segs t = Some (segs ! k))"
  proof
    assume "segs \<noteq> [] \<and> seg_startTime (segs ! 0) \<le> t"
    then obtain k where k: "covers segs t k" using covers_exists [of segs t] by auto
    with found [OF k]
    show "\<exists>k. covers segs t k \<and> findSegmentAtTime segs t = Some (segs ! k)" by auto
  qed
  have 4: "(\<forall>s \<in> set segs. 0 \<le> seg_startTime s) \<and> t < 0 \<longrightarrow>
      findSegmentAtTime segs t = None"
  proof
    assume h: "(\<forall>s \<in> set segs. 0 \<le> seg_startTime s) \<and> t < 0"
    then have "\<forall>j. \<not> covers segs t j" using neg by simp
    then show "findSegmentAtTime segs t = None" by (rule none)
  qed
  from 1 2 3 4 show ?thesis by blast
qed

theorem findSegmentAtTime_covering_witness:
  "sorted_wrt (<) (map seg_startTime
     [\<lparr>seg_index = 0, seg_startTime = 0, seg_text = ''a''\<rparr>,
      \<lparr>seg_index = 1, seg_startTime = 10, seg_text = ''b''\<rparr>,
      \<lparr>seg_index = 2, seg_startTime = 20, seg_text = ''c''\<rparr>]) \<and>
   findSegmentAtTime
     [\<lparr>seg_index = 0, seg_startTime = 0, seg_text = ''a''\<rparr>,
      \<lparr>seg_index = 1, seg_startTime = 10, seg_text = ''b''\<rparr>,
      \<lparr>seg_index = 2, seg_startTime = 20, seg_text = ''c''\<rparr>] 15 =
     Some \<lparr>seg_index = 1, seg_startTime = 10, seg_text = ''b''\<rparr> \<and>
   findSegmentAtTime
     [\<lparr>seg_index = 0, seg_startTime = 0, seg_text = ''a''\<rparr>,
      \<lparr>seg_index = 1, seg_startTime = 10, seg_text = ''b''\<rparr>,
      \<lparr>seg_index = 2, seg_startTime = 20, seg_text = ''c''\<rparr>] 25 =
     Some \<lparr>seg_index = 2, seg_startTime = 20, seg_text = ''c''\<rparr> \<and>
   findSegmentAtTime
     [\<lparr>seg_index = 0, seg_startTime = 0, seg_text = ''a''\<rparr>,
      \<lparr>seg_index = 1, seg_startTime = 10, seg_text = ''b''\<rparr>,
      \<lparr>seg_index = 2, seg_startTime = 20, seg_text = ''c''\<rparr>] (- 1) = None"
proof -
  let ?segs = "[\<lparr>seg_index = 0, seg_startTime = 0, seg_text = ''a''\<rparr>,
      \<lparr>seg_index = 1, seg_startTime = 10, seg_text = ''b''\<rparr>,
      \<lparr>seg_index = 2, seg_startTime = 20, seg_text = ''c''\<rparr>]"
  have s: "sorted_wrt (<) (map seg_startTime ?segs)" by simp
  have c: "covers ?segs 15 1 \<and> covers ?segs 25 2" by (simp add: covers_def)
  show ?thesis
    using s c findSegmentAtTime_covering [OF s, of 15 1]
      findSegmentAtTime_covering [OF s, of 25 2] findSegmentAtTime_covering [OF s, of "- 1" 0]
    by simp
qed

subsection \<open>getTextForRange\<close>

lemma join_append:
  "join sep (xs @ ys) =
     (if xs = [] then join sep ys else if ys = [] then join sep xs
      else join sep xs @ sep @ join sep ys)"
  by (induction sep xs rule: join.induct) (auto simp: neq_Nil_conv)

text \<open>
  Claim C8. \<open>getTextForRange\<close> returns the texts of the segments in the range, in list
  order, joined by one space. The empty list gives the empty string; a segment that
  starts at the end of the range, like every segment out of the range, adds nothing; a
  segment in the range adds its text between the text of the part before it and the
  text of the part after it, with one space on each side where that part selects
  something.
\<close>

theorem getTextForRange_selects:
  "getTextForRange segs a b = join '' '' (map seg_text (filter (inRange a b) segs)) \<and>
   getTextForRange [] a b = [] \<and>
   (seg_startTime s = b \<longrightarrow> getTextForRange (xs @ s # ys) a b = getTextForRange (xs @ ys) a b) \<and>
   (\<not> inRange a b s \<longrightarrow> getTextForRange (xs @ s # ys) a b = getTextForRange (xs @ ys) a b) \<and>
   (inRange a b s \<longrightarrow>
      getTextForRange (xs @ s # ys) a b =
        (if filter (inRange a b) xs = [] then [] else getTextForRange xs a b @ '' '') @
        seg_text s @
        (if filter (inRange a b) ys = [] then [] else '' '' @ getTextForRange ys a b))"
proof -
  have f: "(\<lambda>seg. a \<le> seg_startTime seg \<and> seg_startTime seg < b) = inRange a b"
    by (auto simp: inRange_def)
  have j: "join sep (x # zs) = x @ (if zs = [] then [] else sep @ join sep zs)" for sep x zs
    by (cases zs) simp_all
  show ?thesis
    by (auto simp: getTextForRange_def f Let_def join_append j inRange_def)
qed



theorem getTextForRange_selects_witness:
  "getTextForRange
     [\<lparr>seg_index = 0, seg_startTime = 0, seg_text = ''a''\<rparr>,
      \<lparr>seg_index = 1, seg_startTime = 10, seg_text = ''b''\<rparr>,
      \<lparr>seg_index = 2, seg_startTime = 15, seg_text = ''bb''\<rparr>,
      \<lparr>seg_index = 3, seg_startTime = 20, seg_text = ''c''\<rparr>] 10 20 = ''b bb'' \<and>
   seg_startTime \<lparr>seg_index = 3, seg_startTime = 20, seg_text = ''c''\<rparr> = 20 \<and>
   getTextForRange
     ([\<lparr>seg_index = 0, seg_startTime = 0, seg_text = ''a''\<rparr>,
       \<lparr>seg_index = 1, seg_startTime = 10, seg_text = ''b''\<rparr>,
       \<lparr>seg_index = 2, seg_startTime = 15, seg_text = ''bb''\<rparr>] @
      \<lparr>seg_index = 3, seg_startTime = 20, seg_text = ''c''\<rparr> # []) 10 20 =
   getTextForRange
     ([\<lparr>seg_index = 0, seg_startTime = 0, seg_text = ''a''\<rparr>,
       \<lparr>seg_index = 1, seg_startTime = 10, seg_text = ''b''\<rparr>,
       \<lparr>seg_index = 2, seg_startTime = 15, seg_text = ''bb''\<rparr>] @ []) 10 20 \<and>
   inRange 10 20 \<lparr>seg_index = 1, seg_startTime = 10, seg_text = ''b''\<rparr> \<and>
   \<not> inRange 10 20 \<lparr>seg_index = 0, seg_startTime = 0, seg_text = ''a''\<rparr>"
  using getTextForRange_selects [of
      "[\<lparr>seg_index = 0, seg_startTime = 0, seg_text = ''a''\<rparr>,
        \<lparr>seg_index = 1, seg_startTime = 10, seg_text = ''b''\<rparr>,
        \<lparr>seg_index = 2, seg_startTime = 15, seg_text = ''bb''\<rparr>,
        \<lparr>seg_index = 3, seg_startTime = 20, seg_text = ''c''\<rparr>]" 10 20
      "\<lparr>seg_index = 3, seg_startTime = 20, seg_text = ''c''\<rparr>"
      "[\<lparr>seg_index = 0, seg_startTime = 0, seg_text = ''a''\<rparr>,
        \<lparr>seg_index = 1, seg_startTime = 10, seg_text = ''b''\<rparr>,
        \<lparr>seg_index = 2, seg_startTime = 15, seg_text = ''bb''\<rparr>]" "[]"]
    getTextForRange_selects [of
      "[\<lparr>seg_index = 0, seg_startTime = 0, seg_text = ''a''\<rparr>,
        \<lparr>seg_index = 1, seg_startTime = 10, seg_text = ''b''\<rparr>,
        \<lparr>seg_index = 2, seg_startTime = 15, seg_text = ''bb''\<rparr>]" 10 20
      "\<lparr>seg_index = 1, seg_startTime = 10, seg_text = ''b''\<rparr>" "[]" "[]"]
  by (simp add: inRange_def)

section \<open>Properties of the numbers\<close>

text \<open>
  Rounding to the nearest double is the identity on the integers of magnitude below
  \<open>2 ^ 53\<close>, so that the products and sums of \<open>parseTimestamp\<close> and the quotients of
  \<open>formatTimestamp\<close> are the exact ones there. Above, \<open>numberValue\<close> and \<open>fdiv\<close> are
  computed from the binade of their argument by an integer division.
\<close>

lemma round_even_of_int: "round_even (of_int n) = n"
  by (simp add: round_even_def)

lemma round_even_ge: "of_int M \<le> y \<Longrightarrow> M \<le> round_even y"
proof -
  assume "of_int M \<le> y"
  then have "M \<le> \<lfloor>y\<rfloor>" by (simp add: le_floor_iff)
  then show ?thesis by (simp add: round_even_def Let_def)
qed

lemma round_even_less: "y + 1 / 2 < of_int N \<Longrightarrow> round_even y < N"
proof -
  assume a: "y + 1 / 2 < of_int N"
  have fl: "of_int \<lfloor>y\<rfloor> \<le> y" by simp
  from a have "y < of_int N" by simp
  then have f: "\<lfloor>y\<rfloor> < N" by (simp add: floor_less_iff)
  show ?thesis
  proof (cases "y - of_int \<lfloor>y\<rfloor> < 1 / 2")
    case True
    with f show ?thesis by (simp add: round_even_def Let_def)
  next
    case False
    then have "of_int \<lfloor>y\<rfloor> + 1 / 2 \<le> y" by simp
    with a have "of_int \<lfloor>y\<rfloor> + 1 < (of_int N :: rat)" by simp
    then have "of_int (\<lfloor>y\<rfloor> + 1) < (of_int N :: rat)" by simp
    then have "\<lfloor>y\<rfloor> + 1 < N" by (simp only: of_int_less_iff)
    with f show ?thesis by (simp add: round_even_def Let_def)
  qed
qed

lemma ilog2_le:
  assumes "0 < a" "0 < b"
  shows "2 powi (ilog2 a b) \<le> (of_int a / of_int b :: rat)"
proof (cases "2 powi (bitlen a - bitlen b) \<le> (of_int a / of_int b :: rat)")
  case True
  then show ?thesis by (simp add: ilog2_def)
next
  case False
  from bitlen_bounds [OF assms(1)] have la: "2 ^ nat (bitlen a - 1) \<le> a" by simp
  from bitlen_bounds [OF assms(2)] have ub: "b < 2 ^ nat (bitlen b)" by simp
  have pa: "0 < bitlen a"
    using assms(1) bitlen_eq_zero_iff [of a] bitlen_nonneg [of a] by linarith
  have pb: "0 < bitlen b"
    using assms(2) bitlen_eq_zero_iff [of b] bitlen_nonneg [of b] by linarith
  have 1: "(2 :: rat) powi (bitlen a - 1) \<le> of_int a"
  proof -
    have "(of_int (2 ^ nat (bitlen a - 1)) :: rat) \<le> of_int a" using la by (simp only: of_int_le_iff)
    moreover have "(2 :: rat) powi (bitlen a - 1) = 2 ^ nat (bitlen a - 1)"
      using pa by (simp add: power_int_def)
    ultimately show ?thesis by simp
  qed
  have 2: "(of_int b :: rat) \<le> 2 powi (bitlen b)"
  proof -
    have "(of_int b :: rat) < of_int (2 ^ nat (bitlen b))" using ub by (simp only: of_int_less_iff)
    moreover have "(2 :: rat) powi (bitlen b) = 2 ^ nat (bitlen b)"
      using pb by (simp add: power_int_def)
    ultimately show ?thesis by simp
  qed
  have bpos: "(0 :: rat) < of_int b" using assms by simp
  have "(2 :: rat) powi (bitlen a - bitlen b - 1) = 2 powi (bitlen a - 1) / 2 powi (bitlen b)"
    by (simp add: power_int_diff)
  also have "\<dots> \<le> of_int a / 2 powi (bitlen b)"
    using 1 by (simp add: divide_right_mono)
  also have "\<dots> \<le> of_int a / of_int b"
    using 2 bpos assms(1) by (simp add: divide_left_mono)
  finally show ?thesis using False by (simp add: ilog2_def)
qed

lemma powi_less_exp:
  assumes "(2 :: rat) powi e < 2 powi f"
  shows "e < f"
proof (rule ccontr)
  assume "\<not> e < f"
  then have "f \<le> e" by simp
  then have "(2 :: rat) powi f \<le> 2 powi e" by (simp add: power_int_increasing)
  with assms show False by simp
qed

lemma fdiv_exact:
  assumes "\<bar>n\<bar> < 2 ^ 53"
  shows "fdiv n 1 = of_int n"
proof (cases "n = 0")
  case True
  then show ?thesis by (simp add: fdiv_def)
next
  case False
  then have pos: "0 < \<bar>n\<bar>" by simp
  define e where "e = ilog2 \<bar>n\<bar> 1"
  define sh where "sh = max (e - 52) (- 1074)"
  from ilog2_le [OF pos, of 1] have "(2 :: rat) powi e \<le> of_int \<bar>n\<bar>" by (simp add: e_def)
  also have "(of_int \<bar>n\<bar> :: rat) < of_int (2 ^ 53)" using assms by (simp only: of_int_less_iff)
  finally have "(2 :: rat) powi e < 2 powi 53" by simp
  then have "e < 53" by (rule powi_less_exp)
  then have sh: "sh \<le> 0" by (simp add: sh_def)
  define j where "j = nat (- sh)"
  from sh have shj: "sh = - int j" by (simp add: j_def)
  have p: "(2 :: rat) powi sh = 1 / 2 ^ j"
    by (simp add: shj power_int_minus field_simps)
  have "of_int \<bar>n\<bar> / 1 / (2 :: rat) powi sh = of_int (\<bar>n\<bar> * 2 ^ j)"
    by (simp add: p)
  then have m: "round_even (of_int \<bar>n\<bar> / of_int 1 / 2 powi sh) = \<bar>n\<bar> * 2 ^ j"
    by (simp only: round_even_of_int of_int_1)
  have "fdiv n 1 = of_int (sgn n) * (of_int (\<bar>n\<bar> * 2 ^ j) * 2 powi sh)"
    using False m by (simp add: fdiv_def Let_def e_def sh_def)
  also have "\<dots> = of_int (sgn n) * of_int \<bar>n\<bar>"
    by (simp add: p)
  also have "\<dots> = of_int n"
    by (simp add: sgn_if)
  finally show ?thesis .
qed

lemma numberValue_exact:
  assumes "\<bar>n\<bar> < 2 ^ 53"
  shows "numberValue n = Finite n"
proof -
  have "(of_int \<bar>n\<bar> :: rat) < of_int (2 ^ 53)" using assms by (simp only: of_int_less_iff)
  then have a: "\<bar>of_int n :: rat\<bar> < 2 ^ 53" by simp
  have "(2 :: rat) ^ 53 \<le> 2 ^ 1024" by (rule power_increasing) simp_all
  with a have "\<bar>of_int n :: rat\<bar> < 2 ^ 1024" by linarith
  then have "\<not> (2 :: rat) ^ 1024 \<le> of_int n" "\<not> (of_int n :: rat) \<le> - (2 ^ 1024)"
    by linarith+
  then show ?thesis
    by (simp add: numberValue_def fdiv_exact [OF assms] Let_def)
qed

lemma floor_fdiv:
  assumes a: "0 \<le> a" and b: "0 < b" and bw: "b < 2 ^ w" and ab: "a < b * 2 ^ (54 - w)"
    and w: "1 \<le> w" "w \<le> 54"
  shows "\<lfloor>fdiv a b\<rfloor> = a div b"
proof (cases "a = 0")
  case True
  then show ?thesis by (simp add: fdiv_def)
next
  case False
  with a have pos: "0 < a" by simp
  define q :: rat where "q = of_int a / of_int b"
  define e where "e = ilog2 a b"
  define sh where "sh = max (e - 52) (- 1074)"
  define k where "k = a div b"
  have bq: "(0 :: rat) < of_int b" using b by simp
  from ilog2_le [OF pos b] have "(2 :: rat) powi e \<le> q" by (simp add: e_def q_def)
  also have "q < 2 ^ (54 - w)"
  proof -
    have "(of_int a :: rat) < of_int (b * 2 ^ (54 - w))" using ab by (simp only: of_int_less_iff)
    then show ?thesis using bq by (simp add: q_def field_simps)
  qed
  also have "(2 :: rat) ^ (54 - w) = 2 powi (int (54 - w))" by (simp add: power_int_def)
  finally have "e < int (54 - w)" by (rule powi_less_exp)
  with w have sh: "sh \<le> 1 - int w" by (simp add: sh_def)
  define j where "j = nat (- sh)"
  from sh w have shj: "sh = - int j" and jw: "w \<le> j + 1" by (simp_all add: j_def)
  have p: "(2 :: rat) powi sh = 1 / 2 ^ j"
    by (simp add: shj power_int_minus field_simps)
  define y :: rat where "y = q / 2 powi sh"
  have y: "y = q * 2 ^ j" by (simp add: y_def p)
  define m where "m = round_even y"
  have dm: "a = k * b + a mod b" by (simp add: k_def)
  have md: "0 \<le> a mod b" "a mod b < b" using b by simp_all
  have kb1: "k * b \<le> a" using dm md(1) by linarith
  have kb2: "a + 1 \<le> (k + 1) * b"
  proof -
    have "(k + 1) * b = k * b + b" by (simp add: distrib_right)
    with dm md(2) show ?thesis by linarith
  qed
  have qk: "of_int k \<le> q"
  proof -
    have "(of_int (k * b) :: rat) \<le> of_int a" using kb1 by (simp only: of_int_le_iff)
    then show ?thesis using bq by (simp add: q_def field_simps)
  qed
  have qk1: "q + 1 / of_int b \<le> of_int (k + 1)"
  proof -
    have "(of_int (a + 1) :: rat) \<le> of_int ((k + 1) * b)" using kb2 by (simp only: of_int_le_iff)
    then have "(of_int a + 1 :: rat) \<le> of_int (k + 1) * of_int b" by simp
    then have "(of_int a + 1) / of_int b \<le> (of_int (k + 1) :: rat)"
      using bq by (simp add: pos_divide_le_eq)
    then show ?thesis by (simp add: q_def add_divide_distrib)
  qed
  have lo: "of_int (k * 2 ^ j) \<le> y"
    using qk by (simp add: y)
  have bj: "(of_int b :: rat) < 2 * 2 ^ j"
  proof -
    have "b < 2 ^ w" by (rule bw)
    also have "(2 :: int) ^ w \<le> 2 ^ (j + 1)" using jw by (intro power_increasing) simp_all
    finally have "(of_int b :: rat) < of_int (2 ^ (j + 1))" by (simp only: of_int_less_iff)
    then show ?thesis by simp
  qed
  have hi: "y + 1 / 2 < of_int ((k + 1) * 2 ^ j)"
  proof -
    have "(1 :: rat) / 2 < 2 ^ j / of_int b"
      using bj bq by (simp add: field_simps)
    moreover have "y + 2 ^ j / of_int b \<le> of_int (k + 1) * 2 ^ j"
    proof -
      have "(q + 1 / of_int b) * 2 ^ j \<le> of_int (k + 1) * 2 ^ j"
        using qk1 by (intro mult_right_mono) simp_all
      then show ?thesis by (simp add: y distrib_right)
    qed
    ultimately have "y + 1 / 2 < of_int (k + 1) * 2 ^ j" by linarith
    then show ?thesis by simp
  qed
  from round_even_ge [OF lo] have m1: "k * 2 ^ j \<le> m" by (simp add: m_def)
  from round_even_less [OF hi] have m2: "m < (k + 1) * 2 ^ j" by (simp add: m_def)
  have r: "fdiv a b = of_int m / 2 ^ j"
    using pos by (simp add: fdiv_def Let_def e_def [symmetric] sh_def [symmetric]
        q_def [symmetric] p m_def y)
  have "\<lfloor>(of_int m :: rat) / 2 ^ j\<rfloor> = k"
  proof (rule floor_unique)
    have "(of_int (k * 2 ^ j) :: rat) \<le> of_int m" using m1 by (simp only: of_int_le_iff)
    then show "of_int k \<le> (of_int m :: rat) / 2 ^ j" by (simp add: field_simps)
    have "(of_int m :: rat) < of_int ((k + 1) * 2 ^ j)" using m2 by (simp only: of_int_less_iff)
    then show "(of_int m :: rat) / 2 ^ j < of_int k + 1" by (simp add: field_simps)
  qed
  then show ?thesis by (simp add: r k_def)
qed

lemma round_even_ratio:
  assumes "0 < D"
  shows "round_even (of_int N / of_int D) = round_ratio N D"
proof -
  have dq: "(0 :: rat) < of_int D" using assms by simp
  have f: "\<lfloor>(of_int N :: rat) / of_int D\<rfloor> = N div D" by (rule floor_divide_of_int_eq)
  have "(of_int N :: rat) = of_int (N div D * D + N mod D)" by (simp only: div_mult_mod_eq)
  also have "\<dots> = of_int (N div D) * of_int D + of_int (N mod D)"
    by (simp only: of_int_add of_int_mult)
  finally have d': "(of_int N :: rat) / of_int D - of_int (N div D) = of_int (N mod D) / of_int D"
    using dq by (simp add: field_simps)
  then have d: "(of_int N :: rat) / of_int D - of_int \<lfloor>(of_int N :: rat) / of_int D\<rfloor> =
      of_int (N mod D) / of_int D" by (simp only: f)
  have 1: "((of_int (N mod D) :: rat) / of_int D < 1 / 2) = (2 * (N mod D) < D)"
  proof -
    have "((of_int (N mod D) :: rat) / of_int D < 1 / 2) =
        ((of_int (2 * (N mod D)) :: rat) < of_int D)"
      using dq by (simp add: field_simps)
    then show ?thesis by (simp only: of_int_less_iff)
  qed
  have 2: "(1 / 2 < (of_int (N mod D) :: rat) / of_int D) = (D < 2 * (N mod D))"
  proof -
    have "(1 / 2 < (of_int (N mod D) :: rat) / of_int D) =
        ((of_int D :: rat) < of_int (2 * (N mod D)))"
      using dq by (simp add: field_simps)
    then show ?thesis by (simp only: of_int_less_iff)
  qed
  show ?thesis
    by (simp only: round_even_def round_ratio_def Let_def f d' 1 2)
qed

lemma round_even_le: "y \<le> of_int N \<Longrightarrow> round_even y \<le> N"
proof -
  assume a: "y \<le> of_int N"
  then have f: "\<lfloor>y\<rfloor> \<le> N" by (simp add: floor_le_iff)
  show ?thesis
  proof (cases "y - of_int \<lfloor>y\<rfloor> < 1 / 2")
    case True
    with f show ?thesis by (simp add: round_even_def Let_def)
  next
    case False
    then have "of_int \<lfloor>y\<rfloor> < y" by simp
    with a have "(of_int \<lfloor>y\<rfloor> :: rat) < of_int N" by simp
    then have "\<lfloor>y\<rfloor> < N" by (simp only: of_int_less_iff)
    then show ?thesis by (simp add: round_even_def Let_def)
  qed
qed

lemma ilog2_less:
  assumes "0 < a" "0 < b"
  shows "(of_int a / of_int b :: rat) < 2 powi (ilog2 a b + 1)"
proof (cases "2 powi (bitlen a - bitlen b) \<le> (of_int a / of_int b :: rat)")
  case False
  then show ?thesis by (simp add: ilog2_def)
next
  case True
  from bitlen_bounds [OF assms(1)] have ua: "a < 2 ^ nat (bitlen a)" by simp
  from bitlen_bounds [OF assms(2)] have lb: "2 ^ nat (bitlen b - 1) \<le> b" by simp
  have pa: "0 < bitlen a"
    using assms(1) bitlen_eq_zero_iff [of a] bitlen_nonneg [of a] by linarith
  have pb: "0 < bitlen b"
    using assms(2) bitlen_eq_zero_iff [of b] bitlen_nonneg [of b] by linarith
  have 1: "(of_int a :: rat) < 2 powi (bitlen a)"
  proof -
    have "(of_int a :: rat) < of_int (2 ^ nat (bitlen a))" using ua by (simp only: of_int_less_iff)
    moreover have "(2 :: rat) powi (bitlen a) = 2 ^ nat (bitlen a)"
      using pa by (simp add: power_int_def)
    ultimately show ?thesis by simp
  qed
  have 2: "(2 :: rat) powi (bitlen b - 1) \<le> of_int b"
  proof -
    have "(of_int (2 ^ nat (bitlen b - 1)) :: rat) \<le> of_int b" using lb by (simp only: of_int_le_iff)
    moreover have "(2 :: rat) powi (bitlen b - 1) = 2 ^ nat (bitlen b - 1)"
      using pb by (simp add: power_int_def)
    ultimately show ?thesis by simp
  qed
  have bpos: "(0 :: rat) < of_int b" and apos: "(0 :: rat) < of_int a" using assms by simp_all
  have ppos: "(0 :: rat) < 2 powi (bitlen b - 1)" by simp
  have prod: "(0 :: rat) < of_int b * 2 powi (bitlen b - 1)" using bpos ppos by simp
  have "(of_int a :: rat) / of_int b \<le> of_int a / 2 powi (bitlen b - 1)"
    using 2 apos prod by (intro divide_left_mono) simp_all
  also have "\<dots> < 2 powi (bitlen a) / 2 powi (bitlen b - 1)"
    using 1 ppos by (simp add: divide_strict_right_mono)
  also have "\<dots> = 2 powi (bitlen a - bitlen b + 1)"
    by (simp add: power_int_diff [symmetric] algebra_simps)
  finally show ?thesis using True by (simp add: ilog2_def)
qed

lemma powi_le_less_exp:
  assumes "(2 :: rat) powi e \<le> q" "q < 2 powi f"
  shows "e < f"
  using assms powi_less_exp [of e f] by simp

lemma ilog2_eq:
  assumes b: "0 < b" and lo: "b * 2 ^ e \<le> a" and hi: "a < b * 2 ^ Suc e"
  shows "ilog2 a b = int e"
proof -
  have bq: "(0 :: rat) < of_int b" using b by simp
  have "0 < b * 2 ^ e" using b by simp
  with lo have a: "0 < a" by linarith
  define q :: rat where "q = of_int a / of_int b"
  have 1: "(2 :: rat) powi (int e) \<le> q"
  proof -
    have "(of_int (b * 2 ^ e) :: rat) \<le> of_int a" using lo by (simp only: of_int_le_iff)
    then show ?thesis using bq by (simp add: q_def field_simps)
  qed
  have 2: "q < 2 powi (int e + 1)"
  proof -
    have "(of_int a :: rat) < of_int (b * 2 ^ Suc e)" using hi by (simp only: of_int_less_iff)
    then have "q < 2 ^ Suc e" using bq by (simp add: q_def field_simps)
    moreover have "(2 :: rat) powi (int e + 1) = 2 ^ Suc e"
      by (simp add: power_int_def nat_add_distrib)
    ultimately show ?thesis by simp
  qed
  have 3: "(2 :: rat) powi (ilog2 a b) \<le> q" using ilog2_le [OF a b] by (simp add: q_def)
  have 4: "q < 2 powi (ilog2 a b + 1)" using ilog2_less [OF a b] by (simp add: q_def)
  from powi_le_less_exp [OF 1 4] powi_le_less_exp [OF 3 2] show ?thesis by simp
qed

lemma fdiv_fine:
  assumes b: "0 < b" and lo: "b * 2 ^ e \<le> a" and hi: "a < b * 2 ^ Suc e" and e: "e \<le> 52"
  shows "fdiv a b = of_int (round_ratio (a * 2 ^ (52 - e)) b) / 2 ^ (52 - e)"
proof -
  have "0 < b * 2 ^ e" using b by simp
  with lo have a: "0 < a" by linarith
  have sh: "max (int e - 52) (- 1074) = - int (52 - e)" using e by simp
  have p: "(2 :: rat) powi (- int (52 - e)) = 1 / 2 ^ (52 - e)"
    by (simp add: power_int_minus field_simps)
  have "(of_int a :: rat) * 2 ^ (52 - e) / of_int b = of_int (a * 2 ^ (52 - e)) / of_int b"
    by simp
  then have m: "round_even ((of_int a :: rat) * 2 ^ (52 - e) / of_int b) =
      round_ratio (a * 2 ^ (52 - e)) b"
    by (simp only: round_even_ratio [OF b])
  show ?thesis
    using a by (simp add: fdiv_def Let_def ilog2_eq [OF b lo hi] sh m p)
qed

lemma fdiv_coarse:
  assumes b: "0 < b" and lo: "b * 2 ^ (52 + j) \<le> a" and hi: "a < b * 2 ^ (53 + j)"
  shows "fdiv a b = of_int (round_ratio a (b * 2 ^ j) * 2 ^ j)"
proof -
  have "0 < b * 2 ^ (52 + j)" using b by simp
  with lo have a: "0 < a" by linarith
  have hi': "a < b * 2 ^ Suc (52 + j)" using hi by simp
  have sh: "max (int (52 + j) - 52) (- 1074) = int j" by simp
  have d: "0 < b * 2 ^ j" using b by simp
  have "(of_int a :: rat) / (of_int b * 2 ^ j) = of_int a / of_int (b * 2 ^ j)"
    by simp
  then have m: "round_even ((of_int a :: rat) / (of_int b * 2 ^ j)) =
      round_ratio a (b * 2 ^ j)"
    by (simp only: round_even_ratio [OF d])
  show ?thesis
    using a by (simp add: fdiv_def Let_def ilog2_eq [OF b lo hi'] sh m)
qed

lemma numberValue_eval:
  assumes lo: "2 ^ (52 + j) \<le> n" and hi: "n < 2 ^ (53 + j)" and j: "j \<le> 970"
  shows "numberValue n = Finite (round_ratio n (2 ^ j) * 2 ^ j)"
proof -
  define m where "m = round_ratio n (2 ^ j)"
  have f: "fdiv n 1 = of_int (m * 2 ^ j)"
    using fdiv_coarse [of 1 j n] lo hi by (simp add: m_def)
  have pj: "(0 :: int) < 2 ^ j" by simp
  have me: "m = round_even (of_int n / of_int (2 ^ j))"
    by (simp only: m_def round_even_ratio [OF pj])
  have "(of_int n :: rat) / of_int (2 ^ j) \<le> of_int (2 ^ 53)"
  proof -
    have "(of_int n :: rat) \<le> of_int (2 ^ (53 + j))" using hi by (simp only: of_int_le_iff)
    then show ?thesis by (simp add: field_simps power_add)
  qed
  then have mu: "m \<le> 2 ^ 53" unfolding me by (rule round_even_le)
  have "(of_int (2 ^ 52) :: rat) \<le> of_int n / of_int (2 ^ j)"
  proof -
    have "(of_int (2 ^ (52 + j)) :: rat) \<le> of_int n" using lo by (simp only: of_int_le_iff)
    then show ?thesis by (simp add: field_simps power_add)
  qed
  then have ml: "2 ^ 52 \<le> m" unfolding me by (rule round_even_ge)
  have "m * 2 ^ j \<le> 2 ^ 53 * 2 ^ j" using mu by (intro mult_right_mono) simp_all
  also have "\<dots> = (2 :: int) ^ (53 + j)" by (simp add: power_add)
  also have "\<dots> \<le> 2 ^ 1023" using j by (intro power_increasing) simp_all
  also have "\<dots> < (2 :: int) ^ 1024" by (intro power_strict_increasing) simp_all
  finally have u: "m * 2 ^ j < 2 ^ 1024" .
  have "0 < m" using ml by (rule less_le_trans [rotated]) simp
  then have l: "0 < m * 2 ^ j" by simp
  have "(of_int (m * 2 ^ j) :: rat) < of_int (2 ^ 1024)" using u by (simp only: of_int_less_iff)
  then have c1: "\<not> (2 :: rat) ^ 1024 \<le> of_int (m * 2 ^ j)" by simp
  have "(0 :: rat) < of_int (m * 2 ^ j)" using l by (simp only: of_int_0_less_iff)
  then have c2: "\<not> (of_int (m * 2 ^ j) :: rat) \<le> - (2 ^ 1024)" by (simp add: not_le)
  have "numberValue n = Finite (m * 2 ^ j)"
    by (simp only: numberValue_def Let_def f c1 c2 if_False floor_of_int)
  then show ?thesis by (simp only: m_def)
qed

lemma floor_fdiv_fine:
  assumes "0 < b" "b * 2 ^ e \<le> a" "a < b * 2 ^ Suc e" "e \<le> 52"
  shows "\<lfloor>fdiv a b\<rfloor> = round_ratio (a * 2 ^ (52 - e)) b div 2 ^ (52 - e)"
proof -
  have "fdiv a b = of_int (round_ratio (a * 2 ^ (52 - e)) b) / of_int (2 ^ (52 - e))"
    using fdiv_fine [OF assms] by simp
  then show ?thesis by (simp only: floor_divide_of_int_eq)
qed

lemma floor_fdiv_coarse:
  assumes "0 < b" "b * 2 ^ (52 + j) \<le> a" "a < b * 2 ^ (53 + j)"
  shows "\<lfloor>fdiv a b\<rfloor> = round_ratio a (b * 2 ^ j) * 2 ^ j"
  by (simp only: fdiv_coarse [OF assms] floor_of_int)

section \<open>Properties of the timestamp functions\<close>

subsection \<open>Digits, splitting and printing\<close>

declare natToString.simps [simp del]

lemma of_char_digitChar: "d < 10 \<Longrightarrow> (of_char (digitChar d) :: nat) = 48 + d"
  by (simp add: digitChar_def)

lemma isDigit_digitChar: "d < 10 \<Longrightarrow> isDigit (digitChar d)"
  by (simp add: isDigit_def of_char_digitChar)

lemma digitValue_digitChar: "d < 10 \<Longrightarrow> digitValue (digitChar d) = d"
  by (simp add: digitValue_def of_char_digitChar)

lemma isDigit_plain:
  "isDigit ch \<Longrightarrow> \<not> isWhiteSpace ch \<and> ch \<noteq> CHR '':'' \<and> ch \<noteq> CHR ''+'' \<and> ch \<noteq> CHR ''-''"
  by (auto simp: isDigit_def isWhiteSpace_def)

lemma digitsValue_snoc: "digitsValue (ds @ [d]) = 10 * digitsValue ds + digitValue d"
  by (simp add: digitsValue_def)

lemma digitsValue_zero: "digitsValue (CHR ''0'' # ds) = digitsValue ds"
  by (simp add: digitsValue_def digitValue_def)

lemma digits_natToString: "digits (natToString n)"
proof (induction n rule: natToString.induct)
  case (1 n)
  show ?case
  proof (cases "n < 10")
    case True
    then show ?thesis
      by (subst natToString.simps) (simp add: digits_def isDigit_digitChar)
  next
    case False
    with "1.IH" have "digits (natToString (n div 10))" by simp
    with False show ?thesis
      by (subst natToString.simps) (simp add: digits_def isDigit_digitChar)
  qed
qed

lemma digitsValue_natToString: "digitsValue (natToString n) = n"
proof (induction n rule: natToString.induct)
  case (1 n)
  show ?case
  proof (cases "n < 10")
    case True
    then show ?thesis
      by (subst natToString.simps) (simp add: digitsValue_def digitValue_digitChar)
  next
    case False
    with "1.IH" have "digitsValue (natToString (n div 10)) = n div 10" by simp
    with False show ?thesis
      by (subst natToString.simps) (simp add: digitsValue_snoc digitValue_digitChar)
  qed
qed

lemma parseInt10_digits:
  assumes "digits ds" "int (digitsValue ds) < 2 ^ 53"
  shows "parseInt10 ds = Finite (int (digitsValue ds))"
proof -
  from assms(1) obtain c cs where ds: "ds = c # cs" and c: "isDigit c"
    and all: "list_all isDigit ds"
    by (cases ds) (auto simp: digits_def)
  from all have tw: "takeWhile isDigit ds = ds"
    by (simp add: list_all_iff)
  from isDigit_plain [OF c] ds have dw: "dropWhile isWhiteSpace ds = ds" by simp
  from isDigit_plain [OF c] ds have hd: "hd ds \<noteq> CHR ''+''" "hd ds \<noteq> CHR ''-''" by simp_all
  have ex: "numberValue (int (digitsValue ds)) = Finite (int (digitsValue ds))"
    using assms(2) by (intro numberValue_exact) simp
  show ?thesis
    unfolding parseInt10_def dw Let_def using hd tw ds ex by simp
qed

lemma js_split_plain: "sep \<notin> set a \<Longrightarrow> js_split sep a = [a]"
  by (induction a) auto

lemma js_split_at: "sep \<notin> set a \<Longrightarrow> js_split sep (a @ sep # b) = a # js_split sep b"
  by (induction a) auto

lemma digits_no_colon: "digits ds \<Longrightarrow> CHR '':'' \<notin> set ds"
  using isDigit_plain by (auto simp: digits_def list_all_iff)

lemma trim_plain:
  assumes "s \<noteq> []" "\<not> isWhiteSpace (hd s)" "\<not> isWhiteSpace (last s)"
  shows "trim s = s"
proof -
  from assms(1,2) have 1: "dropWhile isWhiteSpace s = s" by (cases s) simp_all
  from assms(1,3) have 2: "dropWhile isWhiteSpace (rev s) = rev s"
    by (cases "rev s") (simp_all add: hd_rev [symmetric])
  show ?thesis by (simp add: trim_def 1 2)
qed

lemma digits_ends:
  "digits ds \<Longrightarrow> \<not> isWhiteSpace (hd ds) \<and> \<not> isWhiteSpace (last ds)"
  using isDigit_plain by (auto simp: digits_def list_all_iff)

lemma parseTimestamp_two:
  assumes "digits m" "digits s"
    and "int (digitsValue m) * 60 + int (digitsValue s) < 2 ^ 53"
  shows "parseTimestamp (m @ '':'' @ s) =
    (Finite (int (digitsValue m) * 60 + int (digitsValue s)), [])"
proof -
  let ?t = "m @ '':'' @ s"
  let ?a = "int (digitsValue m)" and ?b = "int (digitsValue s)"
  from assms have ne: "m \<noteq> []" "s \<noteq> []" by (simp_all add: digits_def)
  from assms(3) have ba: "?a < 2 ^ 53" and bb: "?b < 2 ^ 53" by linarith+
  from assms(3) have bm: "\<bar>?a * 60\<bar> < 2 ^ 53" and bs: "\<bar>?a * 60 + ?b\<bar> < 2 ^ 53" by simp_all
  have tr: "trim ?t = ?t"
    using digits_ends [OF assms(1)] digits_ends [OF assms(2)] ne
    by (intro trim_plain) simp_all
  have sp: "js_split CHR '':'' ?t = [m, s]"
    using digits_no_colon [OF assms(1)] digits_no_colon [OF assms(2)]
    by (simp add: js_split_at js_split_plain)
  show ?thesis
    using tr sp
    by (simp add: parseTimestamp_def Let_def parseInt10_digits [OF assms(1) ba]
        parseInt10_digits [OF assms(2) bb] numberValue_exact [OF bm] numberValue_exact [OF bs])
qed

lemma parseTimestamp_three:
  assumes "digits h" "digits m" "digits s"
    and "int (digitsValue h) * 3600 + int (digitsValue m) * 60 + int (digitsValue s) < 2 ^ 53"
  shows "parseTimestamp (h @ '':'' @ m @ '':'' @ s) =
    (Finite (int (digitsValue h) * 3600 + int (digitsValue m) * 60 + int (digitsValue s)), [])"
proof -
  let ?t = "h @ '':'' @ m @ '':'' @ s"
  let ?a = "int (digitsValue h)" and ?b = "int (digitsValue m)" and ?c = "int (digitsValue s)"
  from assms have ne: "h \<noteq> []" "s \<noteq> []" by (simp_all add: digits_def)
  from assms(4) have ba: "?a < 2 ^ 53" and bb: "?b < 2 ^ 53" and bc: "?c < 2 ^ 53"
    by linarith+
  from assms(4) have b1: "\<bar>?a * 3600\<bar> < 2 ^ 53" and b2: "\<bar>?b * 60\<bar> < 2 ^ 53"
    and b3: "\<bar>?a * 3600 + ?b * 60\<bar> < 2 ^ 53"
    and b4: "\<bar>?a * 3600 + ?b * 60 + ?c\<bar> < 2 ^ 53" by simp_all
  have tr: "trim ?t = ?t"
    using digits_ends [OF assms(1)] digits_ends [OF assms(3)] ne
    by (intro trim_plain) simp_all
  have sp: "js_split CHR '':'' ?t = [h, m, s]"
    using digits_no_colon [OF assms(1)] digits_no_colon [OF assms(2)]
      digits_no_colon [OF assms(3)]
    by (simp add: js_split_at js_split_plain)
  show ?thesis
    using tr sp
    by (simp add: parseTimestamp_def Let_def parseInt10_digits [OF assms(1) ba]
        parseInt10_digits [OF assms(2) bb] parseInt10_digits [OF assms(3) bc]
        numberValue_exact [OF b1] numberValue_exact [OF b2] numberValue_exact [OF b3]
        numberValue_exact [OF b4])
qed

lemma digitChar_zero: "digitChar 0 = CHR ''0''"
proof -
  have "char_of (of_char CHR ''0'' :: nat) = CHR ''0''" by (rule char_of_char)
  then show ?thesis by (simp add: digitChar_def)
qed

lemma padStart_two:
  "n < 100 \<Longrightarrow> padStart 2 CHR ''0'' (natToString n) = [digitChar (n div 10), digitChar (n mod 10)]"
proof -
  assume n: "n < 100"
  show ?thesis
  proof (cases "n < 10")
    case True
    then show ?thesis
      by (subst natToString.simps) (simp add: padStart_def digitChar_zero)
  next
    case False
    with n have "n div 10 < 10" by simp
    then have "natToString (n div 10) = [digitChar (n div 10)]"
      by (subst natToString.simps) simp
    with False show ?thesis
      by (subst natToString.simps) (simp add: padStart_def)
  qed
qed

lemma digits_two: "n < 100 \<Longrightarrow> digits [digitChar (n div 10), digitChar (n mod 10)]"
  by (simp add: digits_def isDigit_digitChar)

lemma digitsValue_two:
  "n < 100 \<Longrightarrow> digitsValue [digitChar (n div 10), digitChar (n mod 10)] = n"
  by (simp add: digitsValue_def digitValue_digitChar)

lemma toString_nat: "int k < 2 ^ 53 \<Longrightarrow> toString (int k) = natToString k"
proof -
  assume "int k < 2 ^ 53"
  then have "int k < int (2 ^ 53)" by simp
  then have "k < 2 ^ 53" by (simp only: of_nat_less_iff)
  then show ?thesis by (simp add: toString_def numberToString_def)
qed

lemma formatTimestamp_nat:
  assumes "int s < 2 ^ 53"
  shows "formatTimestamp (real s) =
     (if 3600 \<le> s
      then natToString (s div 3600) @ '':'' @
           [digitChar (s mod 3600 div 60 div 10), digitChar (s mod 3600 div 60 mod 10)] @ '':'' @
           [digitChar (s mod 60 div 10), digitChar (s mod 60 mod 10)]
      else natToString (s div 60) @ '':'' @
           [digitChar (s mod 60 div 10), digitChar (s mod 60 mod 10)])"
proof -
  have fl: "\<lfloor>real s\<rfloor> = int s" by simp
  have r1: "js_rem (int s) 3600 = int (s mod 3600)"
    by (simp add: js_rem_def sgn_if zmod_int)
  have r2: "js_rem (int s) 60 = int (s mod 60)"
    by (simp add: js_rem_def sgn_if zmod_int)
  have "(2 :: int) ^ 53 \<le> 3600 * 2 ^ 42" by simp
  with assms have "int s < 3600 * 2 ^ (54 - 12)" by simp
  then have "\<lfloor>fdiv (int s) 3600\<rfloor> = int s div 3600"
    using floor_fdiv [of "int s" 3600 12] by simp
  then have d1: "\<lfloor>fdiv (int s) 3600\<rfloor> = int (s div 3600)" by (simp add: zdiv_int)
  have "int (s mod 3600) < 60 * 2 ^ (54 - 6)"
  proof -
    have "s mod 3600 < 3600" by simp
    then have "int (s mod 3600) < int 3600" by (simp only: of_nat_less_iff)
    then show ?thesis by simp
  qed
  then have "\<lfloor>fdiv (int (s mod 3600)) 60\<rfloor> = int (s mod 3600) div 60"
    using floor_fdiv [of "int (s mod 3600)" 60 6] by simp
  then have d2: "\<lfloor>fdiv (int (s mod 3600)) 60\<rfloor> = int (s mod 3600 div 60)"
    by (simp add: zdiv_int)
  have m: "s mod 3600 div 60 < 100" by (simp add: less_mult_imp_div_less)
  have sc: "s mod 60 < 100" using mod_less_divisor [of 60 s] by linarith
  have le: "int k \<le> int s \<Longrightarrow> toString (int k) = natToString k" for k
    using assms by (intro toString_nat) simp
  have sm: "int k < 2 ^ 53" if "k < 100" for k :: nat
  proof -
    from that have "int k < int 100" by (simp only: of_nat_less_iff)
    also have "int 100 < 2 ^ 53" by simp
    finally show ?thesis .
  qed
  have t1: "toString (int (s div 3600)) = natToString (s div 3600)"
    by (rule le) (simp add: div_le_dividend)
  have t2: "toString (int (s mod 3600 div 60)) = natToString (s mod 3600 div 60)"
    by (rule toString_nat) (rule sm [OF m])
  have t3: "toString (int (s mod 60)) = natToString (s mod 60)"
    by (rule toString_nat) (rule sm [OF sc])
  have small: "s < 3600 \<Longrightarrow> s mod 3600 div 60 = s div 60" by simp
  have h: "(0 < int (s div 3600)) = (3600 \<le> s)"
    by (simp add: div_greater_zero_iff)
  show ?thesis
    unfolding formatTimestamp_def fl Let_def r1 r2 d1 d2 t1 t2 t3 h
    using small by (simp add: padStart_two [OF m] padStart_two [OF sc])
qed

lemma shortest_one:
  "candidates x 1 \<noteq> [] \<Longrightarrow> shortest x = closest x 1 (candidates x 1)"
  by (simp add: shortest_def upt_conv_Cons)

lemmas parse_defs = parseTimestamp_def trim_def parseInt10_def isWhiteSpace_def isDigit_def
  digitsValue_def digitValue_def Let_def


lemma digitChar_eq: "of_char c = 48 + d \<Longrightarrow> digitChar d = c"
proof -
  assume "of_char c = 48 + d"
  then have "digitChar d = char_of (of_char c :: nat)" by (simp only: digitChar_def)
  then show ?thesis by (simp only: char_of_char)
qed

lemma digitChar_table:
  "digitChar 0 = CHR ''0''" "digitChar 1 = CHR ''1''" "digitChar 2 = CHR ''2''"
  "digitChar 3 = CHR ''3''" "digitChar 4 = CHR ''4''" "digitChar 5 = CHR ''5''"
  "digitChar 6 = CHR ''6''" "digitChar 7 = CHR ''7''" "digitChar 8 = CHR ''8''"
  "digitChar 9 = CHR ''9''" "digitChar (Suc 0) = CHR ''1''"
  by (rule digitChar_eq, simp)+



lemma parseInt10_run:
  assumes "digits ds"
  shows "parseInt10 ds = numberValue (int (digitsValue ds))"
proof -
  from assms obtain c cs where ds: "ds = c # cs" and c: "isDigit c"
    and all: "list_all isDigit ds"
    by (cases ds) (auto simp: digits_def)
  from all have tw: "takeWhile isDigit ds = ds"
    by (simp add: list_all_iff)
  from isDigit_plain [OF c] ds have dw: "dropWhile isWhiteSpace ds = ds" by simp
  from isDigit_plain [OF c] ds have hd: "hd ds \<noteq> CHR ''+''" "hd ds \<noteq> CHR ''-''" by simp_all
  show ?thesis
    unfolding parseInt10_def dw Let_def using hd tw ds by simp
qed

lemma parseTimestamp_two_parts:
  assumes "CHR '':'' \<notin> set m" "CHR '':'' \<notin> set s"
    and "m \<noteq> []" "\<not> isWhiteSpace (hd m)" "s \<noteq> []" "\<not> isWhiteSpace (last s)"
    and "parseInt10 m \<noteq> NaN" "parseInt10 s \<noteq> NaN"
  shows "parseTimestamp (m @ '':'' @ s) =
    (js_add (js_mul (parseInt10 m) (Finite 60)) (parseInt10 s), [])"
proof -
  let ?t = "m @ '':'' @ s"
  have tr: "trim ?t = ?t" using assms(3-6) by (intro trim_plain) simp_all
  have sp: "js_split CHR '':'' ?t = [m, s]"
    using assms(1,2) by (simp add: js_split_at js_split_plain)
  show ?thesis using tr sp assms(7,8) by (simp add: parseTimestamp_def Let_def)
qed

lemma parseTimestamp_three_parts:
  assumes "CHR '':'' \<notin> set h" "CHR '':'' \<notin> set m" "CHR '':'' \<notin> set s"
    and "h \<noteq> []" "\<not> isWhiteSpace (hd h)" "s \<noteq> []" "\<not> isWhiteSpace (last s)"
    and "parseInt10 h \<noteq> NaN" "parseInt10 m \<noteq> NaN" "parseInt10 s \<noteq> NaN"
  shows "parseTimestamp (h @ '':'' @ m @ '':'' @ s) =
    (js_add (js_add (js_mul (parseInt10 h) (Finite 3600)) (js_mul (parseInt10 m) (Finite 60)))
       (parseInt10 s), [])"
proof -
  let ?t = "h @ '':'' @ m @ '':'' @ s"
  have tr: "trim ?t = ?t" using assms(4-7) by (intro trim_plain) simp_all
  have sp: "js_split CHR '':'' ?t = [h, m, s]"
    using assms(1-3) by (simp add: js_split_at js_split_plain)
  show ?thesis using tr sp assms(8-10) by (simp add: parseTimestamp_def Let_def)
qed

lemmas digit_defs = digits_def isDigit_def isWhiteSpace_def digitsValue_def digitValue_def

subsection \<open>The round trip\<close>

text \<open>
  Claim C5, for the safe integers. For every non-negative integer \<open>s\<close> up to
  \<open>Number.MAX_SAFE_INTEGER\<close>, parsing the formatted \<open>s\<close> gives \<open>s\<close> back, with no
  warning. \<open>formatTimestamp\<close> depends on the floor of its argument only. Below 3600 it
  prints the minutes as they are, a colon and the seconds on two digits; from 3600 up to
  \<open>Number.MAX_SAFE_INTEGER\<close> the hours as they are, a colon, the minutes on two digits,
  a colon and the seconds on two digits.
\<close>

theorem parse_format_roundtrip:
  "(int s \<le> MAX_SAFE_INTEGER \<longrightarrow>
      parseTimestamp (formatTimestamp (real s)) = (Finite (int s), [])) \<and>
   formatTimestamp x = formatTimestamp (of_int \<lfloor>x\<rfloor>) \<and>
   (s < 3600 \<longrightarrow>
      formatTimestamp (real s) =
        natToString (s div 60) @ '':'' @
        [digitChar (s mod 60 div 10), digitChar (s mod 60 mod 10)]) \<and>
   (3600 \<le> s \<and> int s \<le> MAX_SAFE_INTEGER \<longrightarrow>
      formatTimestamp (real s) =
        natToString (s div 3600) @ '':'' @
        [digitChar (s mod 3600 div 60 div 10), digitChar (s mod 3600 div 60 mod 10)] @ '':'' @
        [digitChar (s mod 60 div 10), digitChar (s mod 60 mod 10)])"
proof -
  have m: "s mod 3600 div 60 < 100" by (simp add: less_mult_imp_div_less)
  have sc: "s mod 60 < 100" using mod_less_divisor [of 60 s] by linarith
  have rt: "parseTimestamp (formatTimestamp (real s)) = (Finite (int s), [])"
    if safe: "int s < 2 ^ 53"
  proof (cases "3600 \<le> s")
    case True
    let ?h = "natToString (s div 3600)"
    let ?m = "[digitChar (s mod 3600 div 60 div 10), digitChar (s mod 3600 div 60 mod 10)]"
    let ?s = "[digitChar (s mod 60 div 10), digitChar (s mod 60 mod 10)]"
    have ar: "int (s div 3600) * 3600 + int (s mod 3600 div 60) * 60 + int (s mod 60) = int s"
    proof -
      have "s div 3600 * 3600 + (s mod 3600 div 60 * 60 + s mod 3600 mod 60) = s"
        by (simp only: div_mult_mod_eq)
      moreover have "s mod 3600 mod 60 = s mod 60"
        by (simp add: mod_mod_cancel)
      ultimately have "s div 3600 * 3600 + s mod 3600 div 60 * 60 + s mod 60 = s" by simp
      then have "int (s div 3600 * 3600 + s mod 3600 div 60 * 60 + s mod 60) = int s"
        by (rule arg_cong)
      then show ?thesis by (simp only: of_nat_add of_nat_mult of_nat_numeral)
    qed
    have bd: "int (digitsValue ?h) * 3600 + int (digitsValue ?m) * 60 + int (digitsValue ?s)
        < 2 ^ 53"
      using safe by (simp only: digitsValue_natToString digitsValue_two [OF m]
          digitsValue_two [OF sc] ar)
    from True safe have "formatTimestamp (real s) = ?h @ '':'' @ ?m @ '':'' @ ?s"
      by (simp only: formatTimestamp_nat if_True)
    then have "parseTimestamp (formatTimestamp (real s)) =
        (Finite (int (digitsValue ?h) * 3600 + int (digitsValue ?m) * 60 +
                 int (digitsValue ?s)), [])"
      using parseTimestamp_three [OF digits_natToString [of "s div 3600"] digits_two [OF m]
          digits_two [OF sc] bd]
      by (simp only:)
    then show ?thesis
      by (simp only: digitsValue_natToString digitsValue_two [OF m] digitsValue_two [OF sc] ar)
  next
    case False
    let ?m = "natToString (s div 60)"
    let ?s = "[digitChar (s mod 60 div 10), digitChar (s mod 60 mod 10)]"
    have ar: "int (s div 60) * 60 + int (s mod 60) = int s"
      by (simp add: zdiv_int zmod_int)
    have bd: "int (digitsValue ?m) * 60 + int (digitsValue ?s) < 2 ^ 53"
      using safe by (simp only: digitsValue_natToString digitsValue_two [OF sc] ar)
    from False safe have "formatTimestamp (real s) = ?m @ '':'' @ ?s"
      by (simp only: formatTimestamp_nat if_False)
    then have "parseTimestamp (formatTimestamp (real s)) =
        (Finite (int (digitsValue ?m) * 60 + int (digitsValue ?s)), [])"
      using parseTimestamp_two [OF digits_natToString [of "s div 60"] digits_two [OF sc] bd]
      by (simp only:)
    then show ?thesis
      by (simp only: digitsValue_natToString digitsValue_two [OF sc] ar)
  qed
  have sf: "int s < 2 ^ 53" if "int s \<le> MAX_SAFE_INTEGER"
    using that by (simp add: MAX_SAFE_INTEGER_def)
  have small: "int s < 2 ^ 53" if "s < 3600"
  proof -
    from that have "int s < int 3600" by (simp only: of_nat_less_iff)
    also have "int 3600 < 2 ^ 53" by simp
    finally show ?thesis .
  qed
  have 1: "int s \<le> MAX_SAFE_INTEGER \<longrightarrow>
      parseTimestamp (formatTimestamp (real s)) = (Finite (int s), [])"
    using rt sf by blast
  have 2: "formatTimestamp x = formatTimestamp (of_int \<lfloor>x\<rfloor>)"
    by (simp add: formatTimestamp_def)
  have 3: "s < 3600 \<longrightarrow>
      formatTimestamp (real s) =
        natToString (s div 60) @ '':'' @
        [digitChar (s mod 60 div 10), digitChar (s mod 60 mod 10)]"
    using formatTimestamp_nat [OF small] by simp
  have 4: "3600 \<le> s \<and> int s \<le> MAX_SAFE_INTEGER \<longrightarrow>
      formatTimestamp (real s) =
        natToString (s div 3600) @ '':'' @
        [digitChar (s mod 3600 div 60 div 10), digitChar (s mod 3600 div 60 mod 10)] @ '':'' @
        [digitChar (s mod 60 div 10), digitChar (s mod 60 mod 10)]"
    using formatTimestamp_nat [OF sf] by simp
  from 1 2 3 4 show ?thesis by blast
qed

theorem parse_format_roundtrip_witness:
  "int 83 \<le> MAX_SAFE_INTEGER \<and>
   parseTimestamp (formatTimestamp (real 83)) = (Finite (int 83), []) \<and>
   formatTimestamp (real 83) = ''1:23'' \<and>
   int 3722 \<le> MAX_SAFE_INTEGER \<and>
   parseTimestamp (formatTimestamp (real 3722)) = (Finite (int 3722), []) \<and>
   formatTimestamp (real 3722) = ''1:02:02'' \<and>
   formatTimestamp (167 / 2) = ''1:23''"
proof -
  note a = parse_format_roundtrip [of 83 "167 / 2"]
  note b = parse_format_roundtrip [of 3722 0]
  have s1: "int 83 \<le> MAX_SAFE_INTEGER" and s2: "int 3722 \<le> MAX_SAFE_INTEGER"
    by (simp_all add: MAX_SAFE_INTEGER_def)
  have l1: "(83 :: nat) < 3600" and l2: "(3600 :: nat) \<le> 3722" by simp_all
  from a s1 have r1: "parseTimestamp (formatTimestamp (real 83)) = (Finite (int 83), [])"
    by blast
  from b s2 have r2: "parseTimestamp (formatTimestamp (real 3722)) = (Finite (int 3722), [])"
    by blast
  have e1: "natToString (83 div 60) @ '':'' @
      [digitChar (83 mod 60 div 10), digitChar (83 mod 60 mod 10)] = ''1:23''"
    by (simp add: natToString.simps digitChar_table)
  have e2: "natToString (3722 div 3600) @ '':'' @
      [digitChar (3722 mod 3600 div 60 div 10), digitChar (3722 mod 3600 div 60 mod 10)] @
      '':'' @ [digitChar (3722 mod 60 div 10), digitChar (3722 mod 60 mod 10)] = ''1:02:02''"
    by (simp add: natToString.simps digitChar_table)
  from a l1 have "formatTimestamp (real 83) = natToString (83 div 60) @ '':'' @
      [digitChar (83 mod 60 div 10), digitChar (83 mod 60 mod 10)]" by blast
  with e1 have f1: "formatTimestamp (real 83) = ''1:23''" by (simp only:)
  from b l2 s2 have "formatTimestamp (real 3722) = natToString (3722 div 3600) @ '':'' @
      [digitChar (3722 mod 3600 div 60 div 10), digitChar (3722 mod 3600 div 60 mod 10)] @
      '':'' @ [digitChar (3722 mod 60 div 10), digitChar (3722 mod 60 mod 10)]" by blast
  with e2 have f2: "formatTimestamp (real 3722) = ''1:02:02''" by (simp only:)
  have "of_int \<lfloor>167 / 2 :: real\<rfloor> = real 83" by simp
  moreover from a have "formatTimestamp (167 / 2) = formatTimestamp (of_int \<lfloor>167 / 2 :: real\<rfloor>)"
    by blast
  ultimately have f3: "formatTimestamp (167 / 2) = ''1:23''" using f1 by (simp only:)
  from s1 s2 r1 r2 f1 f2 f3 show ?thesis by blast
qed

text \<open>
  Claim C5 as stated, for every non-negative integer, fails above
  \<open>Number.MAX_SAFE_INTEGER\<close>. The number 36028797018964024 is a double; it is printed
  as \<open>"10007999171934:27:04"\<close>, whose value 36028797018964020 is no double, and the sum
  of \<open>parseTimestamp\<close> rounds to 36028797018964016. The number 3599999999999999832227840
  (the double written \<open>3.6e24\<close>) has \<open>1e21\<close> hours, which \<open>toString\<close> prints in exponent
  notation: the result \<open>"1e+21:37:20"\<close> is read back as 1 hour, 37 minutes and 20
  seconds, that is 5840.
\<close>

theorem roundtrip_beyond_safe_counterexample:
  "numberValue 36028797018964024 = Finite 36028797018964024 \<and>
   formatTimestamp 36028797018964024 = ''10007999171934:27:04'' \<and>
   parseTimestamp ''10007999171934:27:04'' = (Finite 36028797018964016, []) \<and>
   numberValue 3599999999999999832227840 = Finite 3599999999999999832227840 \<and>
   formatTimestamp 3599999999999999832227840 = ''1e+21:37:20'' \<and>
   parseTimestamp ''1e+21:37:20'' = (Finite 5840, [])"
proof -
  have n1: "numberValue 36028797018964024 = Finite 36028797018964024"
    using numberValue_eval [of 3 36028797018964024] by (simp add: round_ratio_def)
  have h1: "\<lfloor>fdiv 36028797018964024 3600\<rfloor> = 10007999171934"
    using floor_fdiv_fine [of 3600 43 36028797018964024] by (simp add: round_ratio_def)
  have m1: "\<lfloor>fdiv 1624 60\<rfloor> = 27"
    using floor_fdiv [of 1624 60 6] by simp
  have r1: "js_rem 36028797018964024 3600 = 1624" "js_rem 36028797018964024 60 = 4"
    by (simp_all add: js_rem_def)
  have s1: "natToString 10007999171934 = ''10007999171934''"
    by (simp add: natToString.simps digitChar_table)
  have s2: "natToString 27 = ''27''" by (simp add: natToString.simps digitChar_table)
  have s3: "natToString 4 = ''4''" by (simp add: natToString.simps digitChar_table)
  have "formatTimestamp 36028797018964024 =
      (if (10007999171934 :: int) > 0
       then toString 10007999171934 @ '':'' @ padStart 2 CHR ''0'' (toString 27) @ '':'' @
            padStart 2 CHR ''0'' (toString 4)
       else toString 27 @ '':'' @ padStart 2 CHR ''0'' (toString 4))"
    by (simp only: formatTimestamp_def Let_def floor_numeral r1 h1 m1)
  then have f1: "formatTimestamp 36028797018964024 = ''10007999171934:27:04''"
    using s1 s2 s3 by (simp add: toString_def numberToString_def padStart_def)
  have a1: "numberValue 36028797018962400 = Finite 36028797018962400"
    using numberValue_eval [of 2 36028797018962400] by (simp add: round_ratio_def)
  have a2: "numberValue 36028797018964020 = Finite 36028797018964016"
    using numberValue_eval [of 3 36028797018964020] by (simp add: round_ratio_def)
  have q1: "parseInt10 ''10007999171934'' = Finite 10007999171934"
    "parseInt10 ''27'' = Finite 27" "parseInt10 ''04'' = Finite 4"
    by (simp_all add: parseInt10_run digit_defs numberValue_exact)
  have p1: "parseTimestamp ''10007999171934:27:04'' = (Finite 36028797018964016, [])"
    using parseTimestamp_three_parts [of "''10007999171934''" "''27''" "''04''"] a1 a2
    by (simp add: q1 isWhiteSpace_def numberValue_exact)
  have n2: "numberValue 3599999999999999832227840 = Finite 3599999999999999832227840"
    using numberValue_eval [of 29 3599999999999999832227840] by (simp add: round_ratio_def)
  have h2: "\<lfloor>fdiv 3599999999999999832227840 3600\<rfloor> = 1000000000000000000000"
    using floor_fdiv_coarse [of 3600 17 3599999999999999832227840]
    by (simp add: round_ratio_def)
  have m2: "\<lfloor>fdiv 2240 60\<rfloor> = 37"
    using floor_fdiv [of 2240 60 6] by simp
  have r2: "js_rem 3599999999999999832227840 3600 = 2240"
    "js_rem 3599999999999999832227840 60 = 20"
    by (simp_all add: js_rem_def)
  have len: "length (natToString 1000000000000000000000) = 22"
    by (simp add: natToString.simps)
  have A: "numberValue 1000000000000000000000 = Finite 1000000000000000000000"
    using numberValue_eval [of 17 1000000000000000000000] by (simp add: round_ratio_def)
  have B: "numberValue 2000000000000000000000 = Finite 2000000000000000000000"
    using numberValue_eval [of 18 2000000000000000000000] by (simp add: round_ratio_def)
  have C: "numberValue 10000000000000000000000 = Finite 10000000000000000000000"
    using numberValue_eval [of 21 10000000000000000000000] by (simp add: round_ratio_def)
  have c: "candidates 1000000000000000000000 1 = [(1, 22)]"
    by (simp add: candidates_def len A B C)
  have sh: "shortest 1000000000000000000000 = (1, 22)"
    using shortest_one [of 1000000000000000000000] c by simp
  have d: "natToString 1 = ''1''" "natToString 21 = ''21''" "natToString 37 = ''37''"
    "natToString 20 = ''20''"
    by (simp_all add: natToString.simps digitChar_table)
  have t2: "toString 1000000000000000000000 = ''1e+21''"
    using sh d by (simp add: toString_def numberToString_def)
  have "formatTimestamp 3599999999999999832227840 =
      (if (1000000000000000000000 :: int) > 0
       then toString 1000000000000000000000 @ '':'' @ padStart 2 CHR ''0'' (toString 37) @
            '':'' @ padStart 2 CHR ''0'' (toString 20)
       else toString 37 @ '':'' @ padStart 2 CHR ''0'' (toString 20))"
    by (simp only: formatTimestamp_def Let_def floor_numeral r2 h2 m2)
  moreover have t3: "toString 37 = ''37''" "toString 20 = ''20''"
    using d by (simp_all add: toString_def numberToString_def)
  ultimately have f2: "formatTimestamp 3599999999999999832227840 = ''1e+21:37:20''"
    by (simp add: t2 padStart_def)
  have q2: "parseInt10 ''1e+21'' = Finite 1" "parseInt10 ''37'' = Finite 37"
    "parseInt10 ''20'' = Finite 20"
    by (simp_all add: parseInt10_def digit_defs Let_def numberValue_exact)
  have p2: "parseTimestamp ''1e+21:37:20'' = (Finite 5840, [])"
    using parseTimestamp_three_parts [of "''1e+21''" "''37''" "''20''"]
    by (simp add: q2 isWhiteSpace_def numberValue_exact)
  from n1 f1 p1 n2 f2 p2 show ?thesis by blast
qed

subsection \<open>parseTimestamp\<close>

lemma some_NaN:
  "list_ex (\<lambda>p. p = NaN) (map f xs) = (\<exists>p \<in> set xs. f p = NaN)"
  by (induction xs) auto

text \<open>
  Claim C6, as the code has it. \<open>parseTimestamp\<close> trims its input, splits it on the
  colon and reads each component with \<open>parseInt\<close> in base 10. When some component has
  no number to read, the result is 0 and one warning is logged. A component of decimal
  digits whose value is at most \<open>Number.MAX_SAFE_INTEGER\<close> reads as that value. Two
  components read as \<open>a\<close> and \<open>b\<close> give \<open>60 a + b\<close> and three components read as \<open>a\<close>,
  \<open>b\<close> and \<open>c\<close> give \<open>3600 a + 60 b + c\<close>, as long as every product and every partial
  sum has a magnitude of at most \<open>Number.MAX_SAFE_INTEGER\<close>; any other count of
  components gives 0 without a warning. So \<open>"1:23"\<close> gives 83, \<open>"1:02:30"\<close> gives 3750
  and \<open>"bad"\<close> gives 0; a signed component reads as a negative number, and \<open>"-1:30"\<close>
  gives -30. Beyond the safe integers the values are rounded to doubles:
  \<open>"0:9007199254740993"\<close> gives 9007199254740992.
\<close>

theorem parseTimestamp_components:
  "((\<exists>p \<in> set (js_split CHR '':'' (trim t)). parseInt10 p = NaN) \<longrightarrow>
      parseTimestamp t = (Finite 0, [ConsoleWarn (InvalidTimestamp t)])) \<and>
   (digits ds \<and> int (digitsValue ds) \<le> MAX_SAFE_INTEGER \<longrightarrow>
      parseInt10 ds = Finite (int (digitsValue ds))) \<and>
   (js_split CHR '':'' (trim t) = [p, q] \<and> parseInt10 p = Finite a \<and> parseInt10 q = Finite b \<and>
    \<bar>a * 60\<bar> \<le> MAX_SAFE_INTEGER \<and> \<bar>a * 60 + b\<bar> \<le> MAX_SAFE_INTEGER \<longrightarrow>
      parseTimestamp t = (Finite (a * 60 + b), [])) \<and>
   (js_split CHR '':'' (trim t) = [p, q, r] \<and> parseInt10 p = Finite a \<and> parseInt10 q = Finite b \<and>
    parseInt10 r = Finite c \<and>
    \<bar>a * 3600\<bar> \<le> MAX_SAFE_INTEGER \<and> \<bar>b * 60\<bar> \<le> MAX_SAFE_INTEGER \<and>
    \<bar>a * 3600 + b * 60\<bar> \<le> MAX_SAFE_INTEGER \<and>
    \<bar>a * 3600 + b * 60 + c\<bar> \<le> MAX_SAFE_INTEGER \<longrightarrow>
      parseTimestamp t = (Finite (a * 3600 + b * 60 + c), [])) \<and>
   ((\<forall>p \<in> set (js_split CHR '':'' (trim t)). parseInt10 p \<noteq> NaN) \<and>
    length (js_split CHR '':'' (trim t)) \<noteq> 2 \<and> length (js_split CHR '':'' (trim t)) \<noteq> 3 \<longrightarrow>
      parseTimestamp t = (Finite 0, [])) \<and>
   parseTimestamp ''1:23'' = (Finite 83, []) \<and>
   parseTimestamp ''1:02:30'' = (Finite 3750, []) \<and>
   parseTimestamp ''bad'' = (Finite 0, [ConsoleWarn (InvalidTimestamp ''bad'')]) \<and>
   parseTimestamp ''-1:30'' = (Finite (- 30), []) \<and>
   parseTimestamp ''0:9007199254740993'' = (Finite 9007199254740992, [])"
proof -
  have safe: "\<bar>n\<bar> \<le> MAX_SAFE_INTEGER \<Longrightarrow> numberValue n = Finite n" for n
    by (rule numberValue_exact) (simp add: MAX_SAFE_INTEGER_def)
  have 1: "(\<exists>p \<in> set (js_split CHR '':'' (trim t)). parseInt10 p = NaN) \<longrightarrow>
      parseTimestamp t = (Finite 0, [ConsoleWarn (InvalidTimestamp t)])"
    by (simp add: parseTimestamp_def Let_def some_NaN)
  have 2: "digits ds \<and> int (digitsValue ds) \<le> MAX_SAFE_INTEGER \<longrightarrow>
      parseInt10 ds = Finite (int (digitsValue ds))"
    by (simp add: parseInt10_digits MAX_SAFE_INTEGER_def)
  have 3: "js_split CHR '':'' (trim t) = [p, q] \<and> parseInt10 p = Finite a \<and>
      parseInt10 q = Finite b \<and>
      \<bar>a * 60\<bar> \<le> MAX_SAFE_INTEGER \<and> \<bar>a * 60 + b\<bar> \<le> MAX_SAFE_INTEGER \<longrightarrow>
      parseTimestamp t = (Finite (a * 60 + b), [])"
    by (simp add: parseTimestamp_def Let_def safe)
  have 4: "js_split CHR '':'' (trim t) = [p, q, r] \<and> parseInt10 p = Finite a \<and>
      parseInt10 q = Finite b \<and> parseInt10 r = Finite c \<and>
      \<bar>a * 3600\<bar> \<le> MAX_SAFE_INTEGER \<and> \<bar>b * 60\<bar> \<le> MAX_SAFE_INTEGER \<and>
      \<bar>a * 3600 + b * 60\<bar> \<le> MAX_SAFE_INTEGER \<and>
      \<bar>a * 3600 + b * 60 + c\<bar> \<le> MAX_SAFE_INTEGER \<longrightarrow>
      parseTimestamp t = (Finite (a * 3600 + b * 60 + c), [])"
    by (simp add: parseTimestamp_def Let_def safe)
  have 5: "(\<forall>p \<in> set (js_split CHR '':'' (trim t)). parseInt10 p \<noteq> NaN) \<and>
      length (js_split CHR '':'' (trim t)) \<noteq> 2 \<and>
      length (js_split CHR '':'' (trim t)) \<noteq> 3 \<longrightarrow> parseTimestamp t = (Finite 0, [])"
    by (simp add: parseTimestamp_def Let_def some_NaN)
  have 6: "parseTimestamp ''1:23'' = (Finite 83, [])"
    by (simp add: parse_defs numberValue_exact)
  have 7: "parseTimestamp ''1:02:30'' = (Finite 3750, [])"
    by (simp add: parse_defs numberValue_exact)
  have 8: "parseTimestamp ''bad'' = (Finite 0, [ConsoleWarn (InvalidTimestamp ''bad'')])"
    by (simp add: parse_defs)
  have 9: "parseTimestamp ''-1:30'' = (Finite (- 30), [])"
    by (simp add: parse_defs numberValue_exact)
  have v: "numberValue 9007199254740993 = Finite 9007199254740992"
    using numberValue_eval [of 1 9007199254740993] by (simp add: round_ratio_def)
  have w: "numberValue 9007199254740992 = Finite 9007199254740992"
    using numberValue_eval [of 1 9007199254740992] by (simp add: round_ratio_def)
  have q: "parseInt10 ''0'' = Finite 0" "parseInt10 ''9007199254740993'' = Finite 9007199254740992"
    by (simp_all add: parseInt10_run digit_defs numberValue_exact v)
  have 10: "parseTimestamp ''0:9007199254740993'' = (Finite 9007199254740992, [])"
    using parseTimestamp_two_parts [of "''0''" "''9007199254740993''"]
    by (simp add: q isWhiteSpace_def numberValue_exact w)
  from 1 2 3 4 5 6 7 8 9 10 show ?thesis by blast
qed

theorem parseTimestamp_components_witness:
  "parseInt10 ''x'' = NaN \<and>
   parseTimestamp ''1:x'' = (Finite 0, [ConsoleWarn (InvalidTimestamp ''1:x'')]) \<and>
   digits ''02'' \<and> parseInt10 ''02'' = Finite 2 \<and>
   js_split CHR '':'' (trim '' 1:2x '') = [''1'', ''2x''] \<and>
   parseInt10 ''1'' = Finite 1 \<and> parseInt10 ''2x'' = Finite 2 \<and>
   parseTimestamp '' 1:2x '' = (Finite 62, []) \<and>
   js_split CHR '':'' (trim ''5'') = [''5''] \<and>
   parseTimestamp ''5'' = (Finite 0, [])"
proof -
  have a: "parseInt10 ''x'' = NaN \<and> digits ''02'' \<and> digitsValue ''02'' = 2 \<and>
      parseInt10 ''1'' = Finite 1 \<and> parseInt10 ''2x'' = Finite 2 \<and> parseInt10 ''5'' = Finite 5"
    by (simp add: parse_defs digits_def numberValue_exact)
  have s: "js_split CHR '':'' (trim ''1:x'') = [''1'', ''x''] \<and>
      js_split CHR '':'' (trim '' 1:2x '') = [''1'', ''2x''] \<and>
      js_split CHR '':'' (trim ''5'') = [''5'']"
    by (simp add: trim_def isWhiteSpace_def)
  show ?thesis
    using a s
      parseTimestamp_components [of "''1:x''" "''02''" "''1''" "''2x''" 1 2 "''''" 0]
      parseTimestamp_components [of "'' 1:2x ''" "''02''" "''1''" "''2x''" 1 2 "''''" 0]
      parseTimestamp_components [of "''5''" "''02''" "''1''" "''2x''" 1 2 "''''" 0]
    by (simp add: MAX_SAFE_INTEGER_def)
qed

text \<open>
  Claim C6 as stated fails on its second example, \<open>"1:02:30"\<close> being 3750 seconds and
  not 3722, and on a signed component, which is not read as a non-negative integer.
\<close>

theorem parseTimestamp_example_counterexample:
  "fst (parseTimestamp ''1:02:30'') = Finite 3750 \<and>
   fst (parseTimestamp ''1:02:30'') \<noteq> Finite 3722 \<and>
   parseInt10 ''-1'' = Finite (- 1) \<and>
   parseTimestamp ''-1:30'' = (Finite (- 30), [])"
  by (simp add: parse_defs numberValue_exact)

end
